theory Spec2Isabelle
  imports Main "HOL-Library.AList"
begin

section \<open>The Python runtime the program relies on\<close>

text \<open>
  Exceptions are values. The program raises \<^verbatim>\<open>ValueError\<close> itself, its decorator
  \<^verbatim>\<open>input_error\<close> also catches \<^verbatim>\<open>IndexError\<close> and \<^verbatim>\<open>KeyError\<close>, and the date
  arithmetic of the standard library raises \<^verbatim>\<open>OverflowError\<close>. A function that may raise
  returns \<open>py_error + 'a\<close>, with \<open>Inl\<close> for the exception; a method that mutates its
  object returns the object after the call as well, also when it raises.

  A Python string is modelled by an Isabelle \<open>string\<close> whose characters stand for the
  Unicode code points of the same number, U+0000 to U+00FF. Strings with code points
  above U+00FF are outside the model.
\<close>

datatype py_error =
    ValueError string
  | IndexError
  | KeyError
  | OverflowError string

definition is_error :: "py_error + 'a \<Rightarrow> bool" where
  "is_error r = (case r of Inl e \<Rightarrow> True | Inr v \<Rightarrow> False)"

text \<open>
  The characters \<^verbatim>\<open>0\<close> to \<^verbatim>\<open>9\<close>, the decimal digits of the specification. Among the
  characters up to U+00FF they are the class \<^verbatim>\<open>\d\<close> of the module \<^verbatim>\<open>re\<close> and the digits
  that \<^verbatim>\<open>int\<close> reads. Python's \<^verbatim>\<open>\d\<close> and \<^verbatim>\<open>int\<close> also take the decimal digits of
  other scripts (above U+00FF), which no string of the model holds: what is proved of
  parsing is proved of the strings of characters up to U+00FF.
\<close>

definition decimal_digit :: "char \<Rightarrow> bool" where
  "decimal_digit c = (48 \<le> (of_char c :: nat) \<and> (of_char c :: nat) \<le> 57)"

text \<open>\<^verbatim>\<open>str.isdigit\<close> holds of the characters with the Unicode property Numeric_Type
  Digit or Decimal: up to U+00FF these are the ten decimal digits and the superscripts
  two (U+00B2), three (U+00B3) and one (U+00B9). The empty string has no digits.\<close>

definition isdigit_char :: "char \<Rightarrow> bool" where
  "isdigit_char c =
     (decimal_digit c \<or> c = CHR 0xB2 \<or> c = CHR 0xB3 \<or> c = CHR 0xB9)"

definition isdigit :: "string \<Rightarrow> bool" where
  "isdigit s = (s \<noteq> [] \<and> list_all isdigit_char s)"

section \<open>Fields\<close>

text \<open>\<^verbatim>\<open>class Field\<close>: an object with the one attribute \<^verbatim>\<open>value\<close>. \<^verbatim>\<open>Name\<close>,
  \<^verbatim>\<open>Phone\<close> and \<^verbatim>\<open>Birthday\<close> add no attribute.\<close>

datatype field = Field_obj (field_value: string)

definition Name :: "string \<Rightarrow> field" where
  "Name v = Field_obj v"

definition validate_phone :: "string \<Rightarrow> bool" where
  "validate_phone phone = (isdigit phone \<and> length phone = 10)"

definition Phone :: "string \<Rightarrow> py_error + field" where
  "Phone v =
     (if \<not> validate_phone v
      then Inl (ValueError ''Phone number must contain exactly 10 digits.'')
      else Inr (Field_obj v))"

text \<open>The phone numbers of the specification: ten characters, each a decimal digit.\<close>

definition spec_phone_number :: "string \<Rightarrow> bool" where
  "spec_phone_number s = (list_all decimal_digit s \<and> length s = 10)"


section \<open>Calendar dates (module \<^verbatim>\<open>datetime\<close>)\<close>

text \<open>
  The program uses \<^verbatim>\<open>date\<close> objects through \<^verbatim>\<open>replace\<close>, comparison, subtraction,
  addition of a \<^verbatim>\<open>timedelta\<close> and \<^verbatim>\<open>weekday\<close>. The definitions follow the library's
  own arithmetic on proleptic Gregorian ordinals (1 January of year 1 is day 1). The
  helpers assert that the month is in 1..12 and the day in the month; they are only
  called on the fields of a date, which \<open>check_date_fields\<close> has accepted.
\<close>

definition MINYEAR :: int where
  "MINYEAR = 1"

definition MAXYEAR :: int where
  "MAXYEAR = 9999"

definition MAXORDINAL :: int where
  "MAXORDINAL = 3652059"

definition DAYS_IN_MONTH :: "int list" where
  "DAYS_IN_MONTH = [-1, 31, 28, 31, 30, 31, 30, 31, 31, 30, 31, 30, 31]"

fun days_before_loop :: "int \<Rightarrow> int list \<Rightarrow> int list" where
  "days_before_loop dbm [] = []"
| "days_before_loop dbm (dim # dims) = dbm # days_before_loop (dbm + dim) dims"

definition DAYS_BEFORE_MONTH :: "int list" where
  "DAYS_BEFORE_MONTH = -1 # days_before_loop 0 (tl DAYS_IN_MONTH)"

definition is_leap :: "int \<Rightarrow> bool" where
  "is_leap y = (y mod 4 = 0 \<and> (y mod 100 \<noteq> 0 \<or> y mod 400 = 0))"

definition days_before_year :: "int \<Rightarrow> int" where
  "days_before_year y0 = (let y = y0 - 1 in y * 365 + y div 4 - y div 100 + y div 400)"

definition days_in_month :: "int \<Rightarrow> int \<Rightarrow> int" where
  "days_in_month y m = (if m = 2 \<and> is_leap y then 29 else DAYS_IN_MONTH ! nat m)"

definition days_before_month :: "int \<Rightarrow> int \<Rightarrow> int" where
  "days_before_month y m =
     DAYS_BEFORE_MONTH ! nat m + (if m > 2 \<and> is_leap y then 1 else 0)"

definition ymd2ord :: "int \<Rightarrow> int \<Rightarrow> int \<Rightarrow> int" where
  "ymd2ord y m d = days_before_year y + days_before_month y m + d"

definition DI400Y :: int where
  "DI400Y = days_before_year 401"

definition DI100Y :: int where
  "DI100Y = days_before_year 101"

definition DI4Y :: int where
  "DI4Y = days_before_year 5"

definition ord2ymd :: "int \<Rightarrow> int \<times> int \<times> int" where
  "ord2ymd n0 =
     (let n = n0 - 1;
          n400 = n div DI400Y; n = n mod DI400Y;
          y = n400 * 400 + 1;
          n100 = n div DI100Y; n = n mod DI100Y;
          n4 = n div DI4Y; n = n mod DI4Y;
          n1 = n div 365; n = n mod 365;
          y = y + n100 * 100 + n4 * 4 + n1
      in if n1 = 4 \<or> n100 = 4 then (y - 1, 12, 31)
         else
           let leapyear = (n1 = 3 \<and> (n4 \<noteq> 24 \<or> n100 = 3));
               m = (n + 50) div 32;
               preceding = DAYS_BEFORE_MONTH ! nat m + (if m > 2 \<and> leapyear then 1 else 0)
           in if preceding > n
              then
                let m' = m - 1;
                    preceding' = preceding
                      - (DAYS_IN_MONTH ! nat m' + (if m' = 2 \<and> leapyear then 1 else 0))
                in (y, m', n - preceding' + 1)
              else (y, m, n - preceding + 1))"

record date =
  year :: int
  month :: int
  day :: int

text \<open>\<^verbatim>\<open>str\<close> of a natural number, for the one message that prints a year.\<close>

fun str_nat :: "nat \<Rightarrow> string" where
  "str_nat n =
     (if n < 10 then [char_of (48 + n)]
      else str_nat (n div 10) @ [char_of (48 + n mod 10)])"

definition str_int :: "int \<Rightarrow> string" where
  "str_int i = (if i < 0 then CHR ''-'' # str_nat (nat (- i)) else str_nat (nat i))"

text \<open>The checks of the \<^verbatim>\<open>date\<close> constructor, with the messages of CPython 3.11.\<close>

definition check_date_fields :: "int \<Rightarrow> int \<Rightarrow> int \<Rightarrow> py_error + unit" where
  "check_date_fields y m d =
     (if \<not> (MINYEAR \<le> y \<and> y \<le> MAXYEAR)
      then Inl (ValueError (''year '' @ str_int y @ '' is out of range''))
      else if \<not> (1 \<le> m \<and> m \<le> 12)
      then Inl (ValueError ''month must be in 1..12'')
      else if \<not> (1 \<le> d \<and> d \<le> days_in_month y m)
      then Inl (ValueError ''day is out of range for month'')
      else Inr ())"

definition date_new :: "int \<Rightarrow> int \<Rightarrow> int \<Rightarrow> py_error + date" where
  "date_new y m d =
     (case check_date_fields y m d of
        Inl e \<Rightarrow> Inl e
      | Inr u \<Rightarrow> Inr \<lparr>year = y, month = m, day = d\<rparr>)"

text \<open>Every \<^verbatim>\<open>date\<close> object satisfies the checks of its constructor.\<close>

definition date_ok :: "date \<Rightarrow> bool" where
  "date_ok dt = (check_date_fields (year dt) (month dt) (day dt) = Inr ())"

definition toordinal :: "date \<Rightarrow> int" where
  "toordinal dt = ymd2ord (year dt) (month dt) (day dt)"

definition fromordinal :: "int \<Rightarrow> py_error + date" where
  "fromordinal n = (case ord2ymd n of (y, m, d) \<Rightarrow> date_new y m d)"

text \<open>\<^verbatim>\<open>dt.replace(year=y)\<close> builds a new date, so it raises when the day does not
  exist in year \<open>y\<close>.\<close>

definition replace_year :: "date \<Rightarrow> int \<Rightarrow> py_error + date" where
  "replace_year dt y = date_new y (month dt) (day dt)"

text \<open>Dates compare as the tuples (year, month, day).\<close>

definition date_lt :: "date \<Rightarrow> date \<Rightarrow> bool" where
  "date_lt a b =
     (year a < year b \<or>
      (year a = year b \<and> (month a < month b \<or> (month a = month b \<and> day a < day b))))"

definition date_le :: "date \<Rightarrow> date \<Rightarrow> bool" where
  "date_le a b =
     (year a < year b \<or>
      (year a = year b \<and> (month a < month b \<or> (month a = month b \<and> day a \<le> day b))))"

text \<open>\<^verbatim>\<open>dt + timedelta(days=n)\<close>.\<close>

definition date_add_days :: "date \<Rightarrow> int \<Rightarrow> py_error + date" where
  "date_add_days dt n =
     (let ordinal = toordinal dt + n
      in if 0 < ordinal \<and> ordinal \<le> MAXORDINAL then fromordinal ordinal
         else Inl (OverflowError ''date value out of range''))"

text \<open>\<^verbatim>\<open>(a - b).days\<close>.\<close>

definition date_sub_days :: "date \<Rightarrow> date \<Rightarrow> int" where
  "date_sub_days a b = toordinal a - toordinal b"

text \<open>Monday is 0 and Sunday is 6.\<close>

definition weekday :: "date \<Rightarrow> int" where
  "weekday dt = (toordinal dt + 6) mod 7"


section \<open>Parsing a date (\<^verbatim>\<open>datetime.strptime\<close> with the format \<^verbatim>\<open>%d.%m.%Y\<close>)\<close>

text \<open>
  The library turns the format into the regular expression
  \<^verbatim>\<open>(?P<d>3[0-1]|[1-2]\d|0[1-9]|[1-9]| [1-9])\.(?P<m>1[0-2]|0[1-9]|[1-9])\.(?P<Y>\d\d\d\d)\<close>,
  matches it at the start of the string and raises when the match does not end at the
  end of the string. Each group is an alternation of sequences of character classes. A
  matcher returns the matches in the order in which backtracking tries them, each as the
  matched text and the rest of the string; the expression's match is the first one.
\<close>

fun match_classes :: "(char \<Rightarrow> bool) list \<Rightarrow> string \<Rightarrow> (string \<times> string) list" where
  "match_classes [] s = [([], s)]"
| "match_classes (p # ps) [] = []"
| "match_classes (p # ps) (c # s) =
     (if p c then map (\<lambda>(t, r). (c # t, r)) (match_classes ps s) else [])"

definition match_alternatives ::
    "(char \<Rightarrow> bool) list list \<Rightarrow> string \<Rightarrow> (string \<times> string) list" where
  "match_alternatives alts s = concat (map (\<lambda>ps. match_classes ps s) alts)"

definition one_of :: "string \<Rightarrow> char \<Rightarrow> bool" where
  "one_of cs c = (c \<in> set cs)"

definition re_d :: "string \<Rightarrow> (string \<times> string) list" where
  "re_d = match_alternatives
     [[one_of ''3'', one_of ''01''],
      [one_of ''12'', decimal_digit],
      [one_of ''0'', one_of ''123456789''],
      [one_of ''123456789''],
      [one_of '' '', one_of ''123456789'']]"

definition re_m :: "string \<Rightarrow> (string \<times> string) list" where
  "re_m = match_alternatives
     [[one_of ''1'', one_of ''012''],
      [one_of ''0'', one_of ''123456789''],
      [one_of ''123456789'']]"

definition re_Y :: "string \<Rightarrow> (string \<times> string) list" where
  "re_Y = match_alternatives [[decimal_digit, decimal_digit, decimal_digit, decimal_digit]]"

definition re_dot :: "string \<Rightarrow> (string \<times> string) list" where
  "re_dot = match_alternatives [[one_of ''.'']]"

text \<open>The groups \<open>d\<close>, \<open>m\<close>, \<open>Y\<close> of each match and the text after the match.\<close>

definition format_regex_match :: "string \<Rightarrow> (string \<times> string \<times> string \<times> string) list" where
  "format_regex_match s =
     [(d, m, y, r5).
        (d, r1) \<leftarrow> re_d s, (dot1, r2) \<leftarrow> re_dot r1,
        (m, r3) \<leftarrow> re_m r2, (dot2, r4) \<leftarrow> re_dot r3,
        (y, r5) \<leftarrow> re_Y r4]"

text \<open>
  \<^verbatim>\<open>int\<close> on the text of a group: leading blanks are skipped and the decimal digits
  are read. (Signs and underscores, which \<^verbatim>\<open>int\<close> also reads, occur in no group.) The
  messages of the parser's \<^verbatim>\<open>ValueError\<close>s that quote their argument with \<^verbatim>\<open>repr\<close>
  are shortened to their fixed text.
\<close>

definition digit_value :: "char \<Rightarrow> int" where
  "digit_value c = int (of_char c) - 48"

definition number_of :: "string \<Rightarrow> int" where
  "number_of ds = foldl (\<lambda>n c. 10 * n + digit_value c) 0 ds"

definition py_int :: "string \<Rightarrow> py_error + int" where
  "py_int s =
     (let t = dropWhile (\<lambda>c. c = CHR '' '') s
      in if t \<noteq> [] \<and> list_all decimal_digit t then Inr (number_of t)
         else Inl (ValueError ''invalid literal for int() with base 10''))"

definition strptime :: "string \<Rightarrow> py_error + date" where
  "strptime data_string =
     (case format_regex_match data_string of
        [] \<Rightarrow> Inl (ValueError ''time data does not match format'')
      | (d, m, y, rest) # others \<Rightarrow>
          if rest \<noteq> [] then Inl (ValueError (''unconverted data remains: '' @ rest))
          else
            (case py_int d of
               Inl e \<Rightarrow> Inl e
             | Inr dd \<Rightarrow>
                 (case py_int m of
                    Inl e \<Rightarrow> Inl e
                  | Inr mm \<Rightarrow>
                      (case py_int y of
                         Inl e \<Rightarrow> Inl e
                       | Inr yy \<Rightarrow> date_new yy mm dd))))"

text \<open>\<^verbatim>\<open>validate_birthday\<close> catches \<^verbatim>\<open>ValueError\<close> only.\<close>

definition validate_birthday :: "string \<Rightarrow> py_error + bool" where
  "validate_birthday b =
     (case strptime b of
        Inr dt \<Rightarrow> Inr True
      | Inl (ValueError msg) \<Rightarrow> Inr False
      | Inl e \<Rightarrow> Inl e)"

definition Birthday :: "string \<Rightarrow> py_error + field" where
  "Birthday v =
     (case validate_birthday v of
        Inl e \<Rightarrow> Inl e
      | Inr ok \<Rightarrow>
          if \<not> ok then Inl (ValueError ''Birthday must be in DD.MM.YYYY format.'')
          else Inr (Field_obj v))"

text \<open>
  The birthday strings of the specification: two digits, a dot, two digits, a dot, four
  digits, naming a day that exists in the Gregorian calendar (which has no year 0).
\<close>

definition spec_leap_year :: "int \<Rightarrow> bool" where
  "spec_leap_year y = (4 dvd y \<and> (\<not> 100 dvd y \<or> 400 dvd y))"

definition spec_month_length :: "int \<Rightarrow> int \<Rightarrow> int" where
  "spec_month_length y m =
     (if m = 2 then (if spec_leap_year y then 29 else 28)
      else if m \<in> {4, 6, 9, 11} then 30 else 31)"

definition spec_real_date :: "int \<Rightarrow> int \<Rightarrow> int \<Rightarrow> bool" where
  "spec_real_date y m d =
     (1 \<le> y \<and> 1 \<le> m \<and> m \<le> 12 \<and> 1 \<le> d \<and> d \<le> spec_month_length y m)"

definition spec_birthday_string :: "string \<Rightarrow> bool" where
  "spec_birthday_string s =
     (case s of
        [d1, d2, p1, m1, m2, p2, y1, y2, y3, y4] \<Rightarrow>
          p1 = CHR ''.'' \<and> p2 = CHR ''.'' \<and>
          list_all decimal_digit [d1, d2, m1, m2, y1, y2, y3, y4] \<and>
          spec_real_date (number_of [y1, y2, y3, y4]) (number_of [m1, m2]) (number_of [d1, d2])
      | _ \<Rightarrow> False)"

text \<open>
  The strings the parser accepts, field by field: a day of one or two digits or of a
  blank and one digit, a month of one or two digits, a year of four digits.
\<close>

definition day_text :: "string \<Rightarrow> bool" where
  "day_text d =
     (case d of
        [a] \<Rightarrow> decimal_digit a
      | [a, b] \<Rightarrow> (a = CHR '' '' \<or> decimal_digit a) \<and> decimal_digit b
      | _ \<Rightarrow> False)"

definition month_text :: "string \<Rightarrow> bool" where
  "month_text m =
     (case m of
        [a] \<Rightarrow> decimal_digit a
      | [a, b] \<Rightarrow> decimal_digit a \<and> decimal_digit b
      | _ \<Rightarrow> False)"

definition year_text :: "string \<Rightarrow> bool" where
  "year_text y = (length y = 4 \<and> list_all decimal_digit y)"

definition day_number :: "string \<Rightarrow> int" where
  "day_number d = number_of (dropWhile (\<lambda>c. c = CHR '' '') d)"

text \<open>A text is in the language of an alternation when one of its sequences of
  classes fits it character by character.\<close>

definition accepts :: "(char \<Rightarrow> bool) list list \<Rightarrow> string \<Rightarrow> bool" where
  "accepts alts t = (\<exists>ps \<in> set alts. list_all2 (\<lambda>p c. p c) ps t)"

section \<open>Records\<close>

record Record =
  name :: field
  phones :: "field list"
  birthday :: "field option"

definition Record_init :: "string \<Rightarrow> Record" where
  "Record_init nm = \<lparr>name = Name nm, phones = [], birthday = None\<rparr>"

definition add_phone :: "Record \<Rightarrow> string \<Rightarrow> (py_error + unit) \<times> Record" where
  "add_phone self phone =
     (case Phone phone of
        Inl e \<Rightarrow> (Inl e, self)
      | Inr p \<Rightarrow> (Inr (), self\<lparr>phones := phones self @ [p]\<rparr>))"

definition find_phone :: "Record \<Rightarrow> string \<Rightarrow> field option" where
  "find_phone self phone = find (\<lambda>phone_obj. field_value phone_obj = phone) (phones self)"

definition remove_phone :: "Record \<Rightarrow> string \<Rightarrow> (py_error + unit) \<times> Record" where
  "remove_phone self phone =
     (case find_phone self phone of
        Some phone_obj \<Rightarrow> (Inr (), self\<lparr>phones := remove1 phone_obj (phones self)\<rparr>)
      | None \<Rightarrow> (Inl (ValueError ''Phone number not found.''), self))"

text \<open>\<^verbatim>\<open>list.index\<close>: the first position of an element, \<^verbatim>\<open>ValueError\<close> when there is
  none.\<close>

fun index_of :: "'a list \<Rightarrow> 'a \<Rightarrow> py_error + nat" where
  "index_of [] x = Inl (ValueError ''value is not in list'')"
| "index_of (y # ys) x =
     (if y = x then Inr 0
      else (case index_of ys x of Inl e \<Rightarrow> Inl e | Inr i \<Rightarrow> Inr (Suc i)))"

text \<open>In \<^verbatim>\<open>self.phones[self.phones.index(phone_obj)] = Phone(new_phone)\<close> the right-hand
  side is evaluated first, then the index, then the element is stored.\<close>

definition edit_phone :: "Record \<Rightarrow> string \<Rightarrow> string \<Rightarrow> (py_error + unit) \<times> Record" where
  "edit_phone self old_phone new_phone =
     (case find_phone self old_phone of
        Some phone_obj \<Rightarrow>
          (case Phone new_phone of
             Inl e \<Rightarrow> (Inl e, self)
           | Inr p \<Rightarrow>
               (case index_of (phones self) phone_obj of
                  Inl e \<Rightarrow> (Inl e, self)
                | Inr i \<Rightarrow> (Inr (), self\<lparr>phones := (phones self)[i := p]\<rparr>)))
      | None \<Rightarrow> (Inl (ValueError ''Old phone number not found.''), self))"

definition add_birthday :: "Record \<Rightarrow> string \<Rightarrow> (py_error + unit) \<times> Record" where
  "add_birthday self b =
     (case Birthday b of
        Inl e \<Rightarrow> (Inl e, self)
      | Inr bd \<Rightarrow> (Inr (), self\<lparr>birthday := Some bd\<rparr>))"

text \<open>\<^verbatim>\<open>datetime.today().date()\<close> reads the clock: the date it returns is the
  parameter \<open>today\<close>.\<close>

definition days_to_birthday :: "date \<Rightarrow> Record \<Rightarrow> py_error + int option" where
  "days_to_birthday today self =
     (case birthday self of
        None \<Rightarrow> Inr None
      | Some b \<Rightarrow>
          (case strptime (field_value b) of
             Inl e \<Rightarrow> Inl e
           | Inr parsed \<Rightarrow>
               (case replace_year parsed (year today) of
                  Inl e \<Rightarrow> Inl e
                | Inr bday_this_year \<Rightarrow>
                    if date_lt bday_this_year today
                    then
                      (case replace_year bday_this_year (year today + 1) of
                         Inl e \<Rightarrow> Inl e
                       | Inr bday_next_year \<Rightarrow> Inr (Some (date_sub_days bday_next_year today)))
                    else Inr (Some (date_sub_days bday_this_year today)))))"


section \<open>The address book\<close>

text \<open>
  \<^verbatim>\<open>AddressBook\<close> wraps the dictionary \<^verbatim>\<open>data\<close>. A Python dictionary keeps its keys
  in insertion order, which \<^verbatim>\<open>values()\<close> follows: it is an association list.
  Storing under a key that is present replaces the value where it is, storing under a
  new key appends (\<open>AList.update\<close>); deleting removes the key (\<open>AList.delete\<close>).
\<close>

type_synonym AddressBook = "(string \<times> Record) list"

definition add_record :: "AddressBook \<Rightarrow> Record \<Rightarrow> AddressBook" where
  "add_record self record = AList.update (field_value (name record)) record self"

definition find_record :: "AddressBook \<Rightarrow> string \<Rightarrow> Record option" where
  "find_record self nm = map_of self nm"

definition delete :: "AddressBook \<Rightarrow> string \<Rightarrow> (py_error + unit) \<times> AddressBook" where
  "delete self nm =
     (if nm \<in> fst ` set self then (Inr (), AList.delete nm self)
      else (Inl (ValueError ''Name not found in address book.''), self))"

text \<open>The loop of \<^verbatim>\<open>get_upcoming_birthdays\<close> over \<^verbatim>\<open>self.data.values()\<close>; an entry of
  the result is the pair of its \<^verbatim>\<open>"name"\<close> and its \<^verbatim>\<open>"birthday"\<close>.\<close>

fun upcoming_loop ::
    "date \<Rightarrow> date \<Rightarrow> Record list \<Rightarrow> (string \<times> date) list \<Rightarrow> py_error + (string \<times> date) list" where
  "upcoming_loop today seven_days_later [] upcoming_birthdays = Inr upcoming_birthdays"
| "upcoming_loop today seven_days_later (record # records) upcoming_birthdays =
     (case birthday record of
        None \<Rightarrow> upcoming_loop today seven_days_later records upcoming_birthdays
      | Some b \<Rightarrow>
          (case strptime (field_value b) of
             Inl e \<Rightarrow> Inl e
           | Inr parsed \<Rightarrow>
               (case replace_year parsed (year today) of
                  Inl e \<Rightarrow> Inl e
                | Inr bday_this_year \<Rightarrow>
                    if date_le today bday_this_year \<and> date_le bday_this_year seven_days_later
                    then
                      (case (if weekday bday_this_year = 5 then date_add_days bday_this_year 2
                             else if weekday bday_this_year = 6 then date_add_days bday_this_year 1
                             else Inr bday_this_year) of
                         Inl e \<Rightarrow> Inl e
                       | Inr shifted \<Rightarrow>
                           upcoming_loop today seven_days_later records
                             (upcoming_birthdays @ [(field_value (name record), shifted)]))
                    else upcoming_loop today seven_days_later records upcoming_birthdays)))"

definition get_upcoming_birthdays ::
    "date \<Rightarrow> AddressBook \<Rightarrow> py_error + (string \<times> date) list" where
  "get_upcoming_birthdays today self =
     (case date_add_days today 7 of
        Inl e \<Rightarrow> Inl e
      | Inr seven_days_later \<Rightarrow> upcoming_loop today seven_days_later (map snd self) [])"

section \<open>Rendering\<close>

fun join :: "string \<Rightarrow> string list \<Rightarrow> string" where
  "join sep [] = []"
| "join sep [x] = x"
| "join sep (x # y # ys) = x @ sep @ join sep (y # ys)"

definition apostrophe :: string where
  "apostrophe = [CHR 0x27]"

definition Record_str :: "Record \<Rightarrow> string" where
  "Record_str self =
     (let phones_str = join '', '' (map field_value (phones self));
          birthday_str = (case birthday self of
                            Some b \<Rightarrow> '', Birthday: '' @ field_value b
                          | None \<Rightarrow> [])
      in field_value (name self) @ '': ''
         @ (if phones_str \<noteq> [] then phones_str else ''No phones'') @ birthday_str)"

definition AddressBook_str :: "AddressBook \<Rightarrow> string" where
  "AddressBook_str self =
     (let records = join [CHR 0x0A] (map Record_str (map snd self))
      in ''AddressBook:'' @ [CHR 0x0A] @ (if records \<noteq> [] then records else ''No records''))"

section \<open>Command handlers\<close>

text \<open>
  The decorator \<^verbatim>\<open>input_error\<close> turns the exceptions it catches into a returned
  string; any other exception passes through. A handler is its undecorated function
  (named with the suffix \<open>_func\<close>) under the decorator, and returns the address book after
  the call with its result. A record found in the book is the object the book holds, so
  what a method does to it is stored under its key.
\<close>

fun input_error :: "py_error + string \<Rightarrow> py_error + string" where
  "input_error (Inr s) = Inr s"
| "input_error (Inl (ValueError e)) = Inr (''Error: '' @ e)"
| "input_error (Inl IndexError) = Inr ''Error: Not enough arguments provided.''"
| "input_error (Inl KeyError) = Inr ''Error: Contact not found.''"
| "input_error (Inl e) = Inl e"

definition handle_add_func ::
    "string list \<Rightarrow> AddressBook \<Rightarrow> (py_error + string) \<times> AddressBook" where
  "handle_add_func args address_book =
     (case args of
        [nm, phone] \<Rightarrow>
          (case find_record address_book nm of
             Some record \<Rightarrow>
               (case add_phone record phone of
                  (Inl e, record') \<Rightarrow> (Inl e, AList.update nm record' address_book)
                | (Inr u, record') \<Rightarrow>
                    (Inr (''Contact '' @ apostrophe @ nm @ apostrophe
                          @ '' added with phone '' @ phone @ ''.''),
                     AList.update nm record' address_book))
           | None \<Rightarrow>
               (case add_phone (Record_init nm) phone of
                  (Inl e, record') \<Rightarrow> (Inl e, address_book)
                | (Inr u, record') \<Rightarrow>
                    (Inr (''Contact '' @ apostrophe @ nm @ apostrophe
                          @ '' added with phone '' @ phone @ ''.''),
                     add_record address_book record')))
      | _ \<Rightarrow> (Inr ''Error: 'add' command should have two arguments [name] [phone]'',
              address_book))"

definition handle_add ::
    "string list \<Rightarrow> AddressBook \<Rightarrow> (py_error + string) \<times> AddressBook" where
  "handle_add args address_book =
     (case handle_add_func args address_book of (r, book) \<Rightarrow> (input_error r, book))"

definition handle_change_func ::
    "string list \<Rightarrow> AddressBook \<Rightarrow> (py_error + string) \<times> AddressBook" where
  "handle_change_func args address_book =
     (case args of
        [nm, old_phone, new_phone] \<Rightarrow>
          (case find_record address_book nm of
             Some record \<Rightarrow>
               (case edit_phone record old_phone new_phone of
                  (Inr u, record') \<Rightarrow>
                    (Inr (''Phone number for '' @ apostrophe @ nm @ apostrophe
                          @ '' changed from '' @ old_phone @ '' to '' @ new_phone @ ''.''),
                     AList.update nm record' address_book)
                | (Inl (ValueError e), record') \<Rightarrow>
                    (Inr e, AList.update nm record' address_book)
                | (Inl e, record') \<Rightarrow> (Inl e, AList.update nm record' address_book))
           | None \<Rightarrow>
               (Inr (''Error: Contact '' @ apostrophe @ nm @ apostrophe @ '' not found.''),
                address_book))
      | _ \<Rightarrow>
          (Inr (''Error: 'change' command should have three arguments ''
                @ ''[name] [old phone] [new phone]''),
           address_book))"

definition handle_change ::
    "string list \<Rightarrow> AddressBook \<Rightarrow> (py_error + string) \<times> AddressBook" where
  "handle_change args address_book =
     (case handle_change_func args address_book of (r, book) \<Rightarrow> (input_error r, book))"

definition handle_phone_func :: "string list \<Rightarrow> AddressBook \<Rightarrow> py_error + string" where
  "handle_phone_func args address_book =
     (case args of
        [nm] \<Rightarrow>
          (case find_record address_book nm of
             Some record \<Rightarrow>
               Inr (''Phone numbers for '' @ nm @ '': ''
                    @ join '', '' (map field_value (phones record)))
           | None \<Rightarrow>
               Inr (''Error: Contact '' @ apostrophe @ nm @ apostrophe @ '' not found.''))
      | _ \<Rightarrow> Inr ''Error: 'phone' command should have one argument [name]'')"

definition handle_phone :: "string list \<Rightarrow> AddressBook \<Rightarrow> py_error + string" where
  "handle_phone args address_book = input_error (handle_phone_func args address_book)"

definition handle_all :: "AddressBook \<Rightarrow> py_error + string" where
  "handle_all address_book = input_error (Inr (AddressBook_str address_book))"

definition handle_add_birthday_func ::
    "string list \<Rightarrow> AddressBook \<Rightarrow> (py_error + string) \<times> AddressBook" where
  "handle_add_birthday_func args address_book =
     (case args of
        [nm, b] \<Rightarrow>
          (case find_record address_book nm of
             Some record \<Rightarrow>
               (case add_birthday record b of
                  (Inr u, record') \<Rightarrow>
                    (Inr (''Birthday for '' @ apostrophe @ nm @ apostrophe
                          @ '' set to '' @ b @ ''.''),
                     AList.update nm record' address_book)
                | (Inl (ValueError e), record') \<Rightarrow>
                    (Inr e, AList.update nm record' address_book)
                | (Inl e, record') \<Rightarrow> (Inl e, AList.update nm record' address_book))
           | None \<Rightarrow>
               (Inr (''Error: Contact '' @ apostrophe @ nm @ apostrophe @ '' not found.''),
                address_book))
      | _ \<Rightarrow>
          (Inr (''Error: 'add-birthday' command should have two arguments ''
                @ ''[name] [birthday]''),
           address_book))"

definition handle_add_birthday ::
    "string list \<Rightarrow> AddressBook \<Rightarrow> (py_error + string) \<times> AddressBook" where
  "handle_add_birthday args address_book =
     (case handle_add_birthday_func args address_book of
        (r, book) \<Rightarrow> (input_error r, book))"

definition handle_show_birthday_func :: "string list \<Rightarrow> AddressBook \<Rightarrow> py_error + string" where
  "handle_show_birthday_func args address_book =
     (case args of
        [nm] \<Rightarrow>
          (case find_record address_book nm of
             Some record \<Rightarrow>
               (case birthday record of
                  Some b \<Rightarrow> Inr (''Birthday for '' @ nm @ '' is '' @ field_value b @ ''.'')
                | None \<Rightarrow>
                    Inr (''Error: Contact '' @ apostrophe @ nm @ apostrophe
                         @ '' not found or has no birthday set.''))
           | None \<Rightarrow>
               Inr (''Error: Contact '' @ apostrophe @ nm @ apostrophe
                    @ '' not found or has no birthday set.''))
      | _ \<Rightarrow> Inr ''Error: 'show-birthday' command should have one argument [name]'')"

definition handle_show_birthday :: "string list \<Rightarrow> AddressBook \<Rightarrow> py_error + string" where
  "handle_show_birthday args address_book =
     input_error (handle_show_birthday_func args address_book)"


text \<open>\<^verbatim>\<open>strftime('%d.%m.%Y')\<close>: day and month with two digits, the year as the C
  library of Linux prints it, without padding.\<close>

definition zfill2 :: "int \<Rightarrow> string" where
  "zfill2 n = (if n < 10 then CHR ''0'' # str_int n else str_int n)"

definition strftime :: "date \<Rightarrow> string" where
  "strftime dt = zfill2 (day dt) @ ''.'' @ zfill2 (month dt) @ ''.'' @ str_int (year dt)"

definition handle_birthdays :: "date \<Rightarrow> AddressBook \<Rightarrow> py_error + string" where
  "handle_birthdays today address_book =
     input_error
       (case get_upcoming_birthdays today address_book of
          Inl e \<Rightarrow> Inl e
        | Inr upcoming_birthdays \<Rightarrow>
            if upcoming_birthdays \<noteq> []
            then Inr (join [CHR 0x0A]
                   (map (\<lambda>(nm, d). nm @ apostrophe @ ''s birthday celebration is on ''
                                       @ strftime d)
                        upcoming_birthdays))
            else Inr ''No birthdays in the next 7 days.'')"

text \<open>The exceptions of the date arithmetic: \<^verbatim>\<open>ValueError\<close> and \<^verbatim>\<open>OverflowError\<close>.\<close>

definition value_or_overflow :: "py_error \<Rightarrow> bool" where
  "value_or_overflow e = (case e of ValueError m \<Rightarrow> True | OverflowError m \<Rightarrow> True | _ \<Rightarrow> False)"

section \<open>The report of upcoming birthdays, as specified\<close>

text \<open>
  The occurrence of a record's birthday in today's year; the window of today and the
  seven days after it, counted in days; the shift of a Saturday (weekday 5) by two days
  and of a Sunday (weekday 6) by one day; and what an entry of the report must be for a
  record: its name and the date that many days after the occurrence. A birthday occurs
  in a year when its day exists in its month of that year.
\<close>

definition occurrence :: "date \<Rightarrow> Record \<Rightarrow> date option" where
  "occurrence today r =
     (case birthday r of
        None \<Rightarrow> None
      | Some b \<Rightarrow>
          (case strptime (field_value b) of
             Inl e \<Rightarrow> None
           | Inr parsed \<Rightarrow>
               Some \<lparr>year = year today, month = month parsed, day = day parsed\<rparr>))"

definition in_window :: "date \<Rightarrow> Record \<Rightarrow> bool" where
  "in_window today r =
     (case occurrence today r of
        None \<Rightarrow> False
      | Some occ \<Rightarrow> toordinal today \<le> toordinal occ \<and> toordinal occ \<le> toordinal today + 7)"

definition weekend_shift :: "date \<Rightarrow> int" where
  "weekend_shift occ = (if weekday occ = 5 then 2 else if weekday occ = 6 then 1 else 0)"

definition occurs_in_year :: "int \<Rightarrow> Record \<Rightarrow> bool" where
  "occurs_in_year y r =
     (case birthday r of
        None \<Rightarrow> True
      | Some b \<Rightarrow>
          (case strptime (field_value b) of
             Inl e \<Rightarrow> False
           | Inr parsed \<Rightarrow> day parsed \<le> days_in_month y (month parsed)))"

definition reported :: "date \<Rightarrow> string \<times> date \<Rightarrow> Record \<Rightarrow> bool" where
  "reported today entry r =
     (case occurrence today r of
        None \<Rightarrow> False
      | Some occ \<Rightarrow>
          fst entry = field_value (name r) \<and> date_ok (snd entry)
          \<and> toordinal (snd entry) = toordinal occ + weekend_shift occ)"

section \<open>Phone numbers\<close>

lemma isdigit_char_superscript_two: "isdigit_char (CHR 0xB2)"
  by (simp add: isdigit_char_def)

lemma not_decimal_superscript_two: "\<not> decimal_digit (CHR 0xB2)"
  by (simp add: decimal_digit_def)

text \<open>
  C3, as stated: construction succeeds exactly for the strings of ten decimal digits.
  It fails at the string of ten superscript twos, which \<^verbatim>\<open>str.isdigit\<close> accepts.
\<close>

theorem Phone_superscript_counterexample:
  "Phone (replicate 10 (CHR 0xB2)) = Inr (Field_obj (replicate 10 (CHR 0xB2)))
   \<and> \<not> spec_phone_number (replicate 10 (CHR 0xB2))"
  by (simp add: Phone_def validate_phone_def isdigit_def spec_phone_number_def
      isdigit_char_superscript_two not_decimal_superscript_two list_all_iff)

text \<open>
  C3, amended: construction from \<open>s\<close> succeeds if and only if \<open>s\<close> has length exactly
  10 and each of its characters is a digit for \<^verbatim>\<open>str.isdigit\<close> (a decimal digit or one
  of the superscripts one, two, three); on success the stored value is \<open>s\<close>, on failure
  a \<^verbatim>\<open>ValueError\<close> is raised; every string of ten decimal digits is accepted.
\<close>

theorem Phone_accepts_iff:
  "((\<exists>p. Phone s = Inr p) \<longleftrightarrow>
      length s = 10 \<and>
      (\<forall>c \<in> set s. decimal_digit c \<or> c = CHR 0xB2 \<or> c = CHR 0xB3 \<or> c = CHR 0xB9))
   \<and> (\<forall>p. Phone s = Inr p \<longrightarrow> field_value p = s)
   \<and> ((\<forall>p. Phone s \<noteq> Inr p) \<longrightarrow>
        Phone s = Inl (ValueError ''Phone number must contain exactly 10 digits.''))
   \<and> (spec_phone_number s \<longrightarrow> Phone s = Inr (Field_obj s))"
  by (auto simp: Phone_def validate_phone_def isdigit_def isdigit_char_def
      spec_phone_number_def list_all_iff)

theorem Phone_accepts_iff_witness:
  "Phone ''0501234567'' = Inr (Field_obj ''0501234567'')
   \<and> field_value (Field_obj ''0501234567'') = ''0501234567''
   \<and> Phone ''12345'' = Inl (ValueError ''Phone number must contain exactly 10 digits.'')"
proof -
  have a: "spec_phone_number ''0501234567''"
    by (simp add: spec_phone_number_def decimal_digit_def)
  have b: "\<forall>p. Phone ''12345'' \<noteq> Inr p"
    by (simp add: Phone_def validate_phone_def)
  from Phone_accepts_iff [of "''0501234567''"] a
  have "Phone ''0501234567'' = Inr (Field_obj ''0501234567'')" by blast
  moreover from Phone_accepts_iff [of "''12345''"] b
  have "Phone ''12345'' = Inl (ValueError ''Phone number must contain exactly 10 digits.'')"
    by blast
  ultimately show ?thesis by simp
qed

section \<open>Editing a phone\<close>

lemma index_of_found:
  "find (\<lambda>p. field_value p = v) xs = Some x \<Longrightarrow>
   \<exists>i. index_of xs x = Inr i \<and> i < length xs \<and> field_value (xs ! i) = v
       \<and> (\<forall>j<i. field_value (xs ! j) \<noteq> v)"
proof (induction xs)
  case Nil
  then show ?case by simp
next
  case (Cons y ys)
  show ?case
  proof (cases "field_value y = v")
    case True
    with Cons.prems show ?thesis by simp
  next
    case False
    with Cons.prems have f: "find (\<lambda>p. field_value p = v) ys = Some x" by simp
    then have xv: "field_value x = v" by (auto simp: find_Some_iff)
    from Cons.IH [OF f] obtain i where i: "index_of ys x = Inr i" "i < length ys"
      "field_value (ys ! i) = v" "\<forall>j<i. field_value (ys ! j) \<noteq> v" by blast
    from False xv have "y \<noteq> x" by auto
    with i have "index_of (y # ys) x = Inr (Suc i)" by simp
    moreover have "\<forall>j<Suc i. field_value ((y # ys) ! j) \<noteq> v"
      using False i(4) by (auto simp: less_Suc_eq_0_disj)
    ultimately show ?thesis using i by auto
  qed
qed

lemma find_phone_None_iff:
  "find_phone r v = None \<longleftrightarrow> v \<notin> field_value ` set (phones r)"
  by (auto simp: find_phone_def find_None_iff)

lemma validate_phone_iff:
  "validate_phone s \<longleftrightarrow>
     length s = 10 \<and>
     (\<forall>c \<in> set s. decimal_digit c \<or> c = CHR 0xB2 \<or> c = CHR 0xB3 \<or> c = CHR 0xB9)"
  by (auto simp: validate_phone_def isdigit_def isdigit_char_def list_all_iff)

lemma spec_phone_number_valid: "spec_phone_number s \<Longrightarrow> validate_phone s"
  by (auto simp: validate_phone_iff spec_phone_number_def list_all_iff)

lemma edit_phone_outcomes:
  "(old \<notin> field_value ` set (phones r) \<longrightarrow>
      edit_phone r old new = (Inl (ValueError ''Old phone number not found.''), r))
   \<and> (old \<in> field_value ` set (phones r) \<and> \<not> validate_phone new \<longrightarrow>
        edit_phone r old new
          = (Inl (ValueError ''Phone number must contain exactly 10 digits.''), r))
   \<and> (old \<in> field_value ` set (phones r) \<and> validate_phone new \<longrightarrow>
        (\<exists>i. i < length (phones r) \<and> field_value (phones r ! i) = old
           \<and> (\<forall>j<i. field_value (phones r ! j) \<noteq> old)
           \<and> edit_phone r old new
               = (Inr (), r\<lparr>phones := (phones r)[i := Field_obj new]\<rparr>)))"
proof (cases "find_phone r old")
  case None
  then show ?thesis
    using find_phone_None_iff [of r old] by (simp add: edit_phone_def)
next
  case (Some phone_obj)
  then have present: "old \<in> field_value ` set (phones r)"
    using find_phone_None_iff [of r old] by simp
  from Some obtain i where i: "index_of (phones r) phone_obj = Inr i" "i < length (phones r)"
    "field_value (phones r ! i) = old" "\<forall>j<i. field_value (phones r ! j) \<noteq> old"
    using index_of_found [of old "phones r" phone_obj] by (auto simp: find_phone_def)
  show ?thesis
  proof (cases "validate_phone new")
    case True
    then have "edit_phone r old new = (Inr (), r\<lparr>phones := (phones r)[i := Field_obj new]\<rparr>)"
      using Some i(1) by (simp add: edit_phone_def Phone_def)
    with present True i show ?thesis by blast
  next
    case False
    then show ?thesis using Some present by (simp add: edit_phone_def Phone_def)
  qed
qed

text \<open>
  C4, as stated: \<^verbatim>\<open>edit_phone(old, new)\<close> fails when \<open>new\<close> is not a phone of ten
  decimal digits. It does not at the string of ten superscript twos, which
  \<^verbatim>\<open>str.isdigit\<close> accepts: the phone is replaced by it.
\<close>

theorem edit_phone_superscript_counterexample:
  "edit_phone
     \<lparr>name = Field_obj ''Bob'', phones = [Field_obj ''1111111111''], birthday = None\<rparr>
     ''1111111111'' (replicate 10 (CHR 0xB2))
     = (Inr (),
        \<lparr>name = Field_obj ''Bob'', phones = [Field_obj (replicate 10 (CHR 0xB2))],
           birthday = None\<rparr>)
   \<and> \<not> spec_phone_number (replicate 10 (CHR 0xB2))"
  by code_simp

text \<open>
  C4, amended (strings of characters up to U+00FF): \<^verbatim>\<open>edit_phone(old, new)\<close> raises the
  \<^verbatim>\<open>ValueError\<close> of a missing phone when no phone of the record has the value \<open>old\<close>
  (the lookup comes first, so a missing \<open>old\<close> is reported whatever \<open>new\<close> is). When
  \<open>old\<close> is present it raises the \<^verbatim>\<open>ValueError\<close> of an invalid phone unless \<open>new\<close> has
  length exactly 10 and each of its characters is a digit for \<^verbatim>\<open>str.isdigit\<close> (a decimal
  digit or one of the superscripts one, two, three). With either error the record is
  unchanged. Otherwise, so for every \<open>new\<close> of ten decimal digits, the first phone with
  the value \<open>old\<close> is replaced by \<open>new\<close> at its position \<open>i\<close> and nothing else changes.
\<close>

theorem edit_phone_replaces_or_fails:
  "(old \<notin> field_value ` set (phones r) \<longrightarrow>
      edit_phone r old new = (Inl (ValueError ''Old phone number not found.''), r))
   \<and> (old \<in> field_value ` set (phones r)
        \<and> \<not> (length new = 10 \<and>
               (\<forall>c \<in> set new. decimal_digit c \<or> c = CHR 0xB2 \<or> c = CHR 0xB3 \<or> c = CHR 0xB9))
        \<longrightarrow>
        edit_phone r old new
          = (Inl (ValueError ''Phone number must contain exactly 10 digits.''), r))
   \<and> (old \<in> field_value ` set (phones r)
        \<and> ((length new = 10 \<and>
              (\<forall>c \<in> set new. decimal_digit c \<or> c = CHR 0xB2 \<or> c = CHR 0xB3 \<or> c = CHR 0xB9))
             \<or> spec_phone_number new)
        \<longrightarrow>
        (\<exists>i. i < length (phones r) \<and> field_value (phones r ! i) = old
           \<and> (\<forall>j<i. field_value (phones r ! j) \<noteq> old)
           \<and> edit_phone r old new
               = (Inr (), r\<lparr>phones := (phones r)[i := Field_obj new]\<rparr>)))"
  using edit_phone_outcomes [of old r new] spec_phone_number_valid [of new]
  unfolding validate_phone_iff [of new] by blast

theorem edit_phone_replaces_or_fails_witness:
  "edit_phone \<lparr>name = Field_obj ''Bob'', phones = [Field_obj ''1111111111''], birthday = None\<rparr>
       ''1111111111'' ''2222222222''
     = (Inr (), \<lparr>name = Field_obj ''Bob'', phones = [Field_obj ''2222222222''], birthday = None\<rparr>)
   \<and> edit_phone \<lparr>name = Field_obj ''Bob'', phones = [Field_obj ''1111111111''], birthday = None\<rparr>
       ''3333333333'' ''2222222222''
     = (Inl (ValueError ''Old phone number not found.''),
        \<lparr>name = Field_obj ''Bob'', phones = [Field_obj ''1111111111''], birthday = None\<rparr>)
   \<and> edit_phone \<lparr>name = Field_obj ''Bob'', phones = [Field_obj ''1111111111''], birthday = None\<rparr>
       ''1111111111'' ''22''
     = (Inl (ValueError ''Phone number must contain exactly 10 digits.''),
        \<lparr>name = Field_obj ''Bob'', phones = [Field_obj ''1111111111''], birthday = None\<rparr>)"
proof -
  let ?r = "\<lparr>name = Field_obj ''Bob'', phones = [Field_obj ''1111111111''], birthday = None\<rparr>"
  have v: "spec_phone_number ''2222222222''"
    by (simp add: spec_phone_number_def decimal_digit_def)
  have nv: "\<not> (length ''22'' = 10 \<and>
      (\<forall>c \<in> set ''22''. decimal_digit c \<or> c = CHR 0xB2 \<or> c = CHR 0xB3 \<or> c = CHR 0xB9))"
    by simp
  have a: "''1111111111'' \<in> field_value ` set (phones ?r)" by simp
  have b: "''3333333333'' \<notin> field_value ` set (phones ?r)" by simp
  from edit_phone_replaces_or_fails [of "''1111111111''" ?r "''2222222222''"] a v
  have "edit_phone ?r ''1111111111'' ''2222222222''
          = (Inr (), ?r\<lparr>phones := [Field_obj ''2222222222'']\<rparr>)"
    by auto
  moreover from edit_phone_replaces_or_fails [of "''3333333333''" ?r "''2222222222''"] b
  have "edit_phone ?r ''3333333333'' ''2222222222''
          = (Inl (ValueError ''Old phone number not found.''), ?r)"
    by blast
  moreover from edit_phone_replaces_or_fails [of "''1111111111''" ?r "''22''"] a nv
  have "edit_phone ?r ''1111111111'' ''22''
          = (Inl (ValueError ''Phone number must contain exactly 10 digits.''), ?r)"
    by blast
  ultimately show ?thesis by simp
qed

section \<open>Adding, finding and deleting records\<close>

lemma map_fst_update_present:
  "k \<in> fst ` set al \<Longrightarrow> map fst (AList.update k v al) = map fst al"
  by (induction al) (auto simp: rev_image_eqI)

lemma key_in_update: "k \<in> fst ` set (AList.update k v al)"
  by (induction al) auto

lemma filter_key_unique:
  "distinct (map fst al) \<Longrightarrow> map_of al k = Some v \<Longrightarrow> filter (\<lambda>p. fst p = k) al = [(k, v)]"
proof (induction al)
  case Nil
  then show ?case by simp
next
  case (Cons p al)
  show ?case
  proof (cases "fst p = k")
    case True
    with Cons.prems have "k \<notin> fst ` set al" and "snd p = v" by auto
    then have "filter (\<lambda>p. fst p = k) al = []"
      by (auto simp: filter_empty_conv)
    with True \<open>snd p = v\<close> show ?thesis by (cases p) simp
  next
    case False
    with Cons show ?thesis by simp
  qed
qed

text \<open>
  C7: for two records with the same name, \<^verbatim>\<open>add_record\<close> of the first and then of the
  second (neither call can fail) leaves the second record, and only it, under that name,
  as \<^verbatim>\<open>find\<close> observes; the second call adds no key and leaves the other names as
  they were. The keys of a dictionary are distinct.
\<close>

theorem add_record_last_write_wins:
  assumes "name r1 = name r2" and "distinct (map fst book)"
  shows "find_record (add_record (add_record book r1) r2) (field_value (name r2)) = Some r2
    \<and> filter (\<lambda>p. fst p = field_value (name r2)) (add_record (add_record book r1) r2)
        = [(field_value (name r2), r2)]
    \<and> map fst (add_record (add_record book r1) r2) = map fst (add_record book r1)
    \<and> (\<forall>k. k \<noteq> field_value (name r2) \<longrightarrow>
          find_record (add_record (add_record book r1) r2) k = find_record book k)"
proof -
  let ?n = "field_value (name r2)"
  let ?b1 = "add_record book r1"
  let ?b2 = "add_record ?b1 r2"
  have found: "find_record ?b2 ?n = Some r2"
    by (simp add: find_record_def add_record_def update_conv')
  have d: "distinct (map fst ?b2)"
    using assms(2) by (simp add: add_record_def distinct_update)
  have single: "filter (\<lambda>p. fst p = ?n) ?b2 = [(?n, r2)]"
    using filter_key_unique [OF d] found by (simp add: find_record_def)
  have "?n \<in> fst ` set ?b1"
    using assms(1) by (simp add: add_record_def key_in_update)
  then have keys: "map fst ?b2 = map fst ?b1"
    by (simp add: add_record_def map_fst_update_present)
  have others: "\<forall>k. k \<noteq> ?n \<longrightarrow> find_record ?b2 k = find_record book k"
    using assms(1) by (simp add: find_record_def add_record_def update_conv')
  from found single keys others show ?thesis by blast
qed

theorem add_record_last_write_wins_witness:
  "name \<lparr>name = Field_obj ''Bob'', phones = [Field_obj ''0501234567''], birthday = None\<rparr>
     = name \<lparr>name = Field_obj ''Bob'', phones = [], birthday = None\<rparr>
   \<and> distinct (map fst ([] :: AddressBook))
   \<and> find_record
        (add_record
           (add_record []
              \<lparr>name = Field_obj ''Bob'', phones = [Field_obj ''0501234567''], birthday = None\<rparr>)
           \<lparr>name = Field_obj ''Bob'', phones = [], birthday = None\<rparr>)
        ''Bob''
      = Some \<lparr>name = Field_obj ''Bob'', phones = [], birthday = None\<rparr>"
  using add_record_last_write_wins
    [of "\<lparr>name = Field_obj ''Bob'', phones = [Field_obj ''0501234567''], birthday = None\<rparr>"
        "\<lparr>name = Field_obj ''Bob'', phones = [], birthday = None\<rparr>" "[]"]
  by simp

lemma delete_as_filter: "AList.delete k al = filter (\<lambda>p. fst p \<noteq> k) al"
  by (induction al) auto

text \<open>
  C8: \<^verbatim>\<open>delete(name)\<close> raises the \<^verbatim>\<open>ValueError\<close> of a missing name when the name is
  absent, and the book is unchanged; when the name is present the call returns, \<^verbatim>\<open>find\<close>
  of that name then gives none, and every other entry remains, in the same order.
\<close>

theorem delete_removes_or_fails:
  "(find_record book nm = None \<longrightarrow>
      delete book nm = (Inl (ValueError ''Name not found in address book.''), book))
   \<and> (find_record book nm \<noteq> None \<longrightarrow>
        (\<exists>book'. delete book nm = (Inr (), book')
           \<and> find_record book' nm = None
           \<and> (\<forall>k. k \<noteq> nm \<longrightarrow> find_record book' k = find_record book k)
           \<and> book' = filter (\<lambda>p. fst p \<noteq> nm) book))"
proof (cases "nm \<in> fst ` set book")
  case True
  then have present: "find_record book nm \<noteq> None"
    by (simp add: find_record_def map_of_eq_None_iff)
  have "delete book nm = (Inr (), AList.delete nm book)"
    using True by (simp add: delete_def)
  moreover have "find_record (AList.delete nm book) nm = None"
    by (simp add: find_record_def delete_conv')
  moreover have "\<forall>k. k \<noteq> nm \<longrightarrow> find_record (AList.delete nm book) k = find_record book k"
    by (simp add: find_record_def delete_conv')
  ultimately show ?thesis using present by (simp add: delete_as_filter)
next
  case False
  then have "find_record book nm = None"
    by (simp add: find_record_def map_of_eq_None_iff)
  then show ?thesis using False by (simp add: delete_def)
qed

theorem delete_removes_or_fails_witness:
  "delete [(''Bob'', \<lparr>name = Field_obj ''Bob'', phones = [], birthday = None\<rparr>)] ''Bob''
     = (Inr (), [])
   \<and> delete [] ''Bob'' = (Inl (ValueError ''Name not found in address book.''), [])"
proof -
  let ?book = "[(''Bob'', \<lparr>name = Field_obj ''Bob'', phones = [], birthday = None\<rparr>)]"
  have "find_record ?book ''Bob'' \<noteq> None"
    by (simp add: find_record_def)
  with delete_removes_or_fails [of ?book "''Bob''"]
  have "delete ?book ''Bob'' = (Inr (), [])" by auto
  moreover have "find_record [] ''Bob'' = None"
    by (simp add: find_record_def)
  with delete_removes_or_fails [of "[]" "''Bob''"]
  have "delete [] ''Bob'' = (Inl (ValueError ''Name not found in address book.''), [])"
    by blast
  ultimately show ?thesis by simp
qed

section \<open>The handlers\<close>

text \<open>
  C10: when the book has a record under the name \<open>n\<close> and the phone is valid,
  \<^verbatim>\<open>handle_add\<close> appends the phone to that record's phones and leaves its name and
  birthday, the keys of the book and the records under the other names as they were; the
  message is the one returned when the contact is new.
\<close>

theorem handle_add_existing_appends:
  assumes "find_record book n = Some r" and "validate_phone phone"
  shows "\<exists>book' r'.
           handle_add [n, phone] book
             = (Inr (''Contact '' @ apostrophe @ n @ apostrophe
                     @ '' added with phone '' @ phone @ ''.''), book')
         \<and> find_record book' n = Some r'
         \<and> phones r' = phones r @ [Field_obj phone]
         \<and> birthday r' = birthday r \<and> name r' = name r
         \<and> map fst book' = map fst book
         \<and> (\<forall>k. k \<noteq> n \<longrightarrow> find_record book' k = find_record book k)
         \<and> (\<forall>book0. find_record book0 n = None \<longrightarrow>
               fst (handle_add [n, phone] book0) = fst (handle_add [n, phone] book))"
proof -
  let ?r' = "r\<lparr>phones := phones r @ [Field_obj phone]\<rparr>"
  let ?book' = "AList.update n ?r' book"
  let ?msg = "''Contact '' @ apostrophe @ n @ apostrophe @ '' added with phone '' @ phone @ ''.''"
  have ap: "\<And>x. add_phone x phone = (Inr (), x\<lparr>phones := phones x @ [Field_obj phone]\<rparr>)"
    using assms(2) by (simp add: add_phone_def Phone_def)
  have run: "handle_add [n, phone] book = (Inr ?msg, ?book')"
    using assms(1) by (simp add: handle_add_def handle_add_func_def ap)
  have new: "\<forall>book0. find_record book0 n = None \<longrightarrow>
               fst (handle_add [n, phone] book0) = fst (handle_add [n, phone] book)"
    unfolding run by (simp add: handle_add_def handle_add_func_def ap)
  have "n \<in> fst ` set book"
    using assms(1) by (auto simp: find_record_def dest: map_of_SomeD intro: rev_image_eqI)
  then have keys: "map fst ?book' = map fst book"
    by (rule map_fst_update_present)
  have found: "find_record ?book' n = Some ?r'"
    by (simp add: find_record_def update_conv')
  have others: "\<forall>k. k \<noteq> n \<longrightarrow> find_record ?book' k = find_record book k"
    by (simp add: find_record_def update_conv')
  from run found keys others new show ?thesis
    by (intro exI [of _ ?book'] exI [of _ ?r']) simp
qed

theorem handle_add_existing_appends_witness:
  "find_record
     [(''Bob'', \<lparr>name = Field_obj ''Bob'', phones = [Field_obj ''1111111111''],
                 birthday = Some (Field_obj ''15.06.1990'')\<rparr>)] ''Bob''
     = Some \<lparr>name = Field_obj ''Bob'', phones = [Field_obj ''1111111111''],
              birthday = Some (Field_obj ''15.06.1990'')\<rparr>
   \<and> validate_phone ''0501234567''
   \<and> (\<exists>book' r'.
         handle_add [''Bob'', ''0501234567'']
           [(''Bob'', \<lparr>name = Field_obj ''Bob'', phones = [Field_obj ''1111111111''],
                       birthday = Some (Field_obj ''15.06.1990'')\<rparr>)]
           = (Inr (''Contact '' @ apostrophe @ ''Bob'' @ apostrophe
                   @ '' added with phone '' @ ''0501234567'' @ ''.''), book')
         \<and> find_record book' ''Bob'' = Some r'
         \<and> phones r' = [Field_obj ''1111111111'', Field_obj ''0501234567'']
         \<and> birthday r' = Some (Field_obj ''15.06.1990'')
         \<and> map fst book' = [''Bob''])"
proof -
  let ?r = "\<lparr>name = Field_obj ''Bob'', phones = [Field_obj ''1111111111''],
             birthday = Some (Field_obj ''15.06.1990'')\<rparr>"
  have f: "find_record [(''Bob'', ?r)] ''Bob'' = Some ?r"
    by (simp add: find_record_def)
  have v: "validate_phone ''0501234567''"
    by (simp add: validate_phone_def isdigit_def isdigit_char_def decimal_digit_def)
  from handle_add_existing_appends [OF f v] f v show ?thesis
    by (elim exE conjE, intro conjI exI) simp_all
qed

section \<open>Calendar arithmetic\<close>

lemma div_step:
  fixes y k :: int
  assumes "0 < k"
  shows "y div k = (y - 1) div k + (if y mod k = 0 then 1 else 0)"
proof -
  define q where "q = (y - 1) div k"
  define r where "r = (y - 1) mod k"
  have "y - 1 = k * q + r" by (simp add: q_def r_def)
  then have y: "y = k * q + (r + 1)" by simp
  have r: "0 \<le> r" "r < k"
    using assms by (simp_all add: r_def)
  show ?thesis
  proof (cases "r + 1 = k")
    case True
    with y have "y = k * q + k" by simp
    then have y': "y = k * (q + 1)" by (simp add: distrib_left)
    have "y div k = q + 1" "y mod k = 0"
      using assms unfolding y' by simp_all
    then show ?thesis by (simp add: q_def)
  next
    case False
    with r have r1: "0 \<le> r + 1" "r + 1 < k" by simp_all
    have "y div k = q"
      by (rule int_div_pos_eq [OF y r1])
    moreover have "y mod k = r + 1"
      by (rule int_mod_pos_eq [OF y r1])
    ultimately show ?thesis using r by (simp add: q_def)
  qed
qed

lemma mod_400_100_4:
  fixes y :: int
  shows "y mod 400 = 0 \<Longrightarrow> y mod 100 = 0" and "y mod 100 = 0 \<Longrightarrow> y mod 4 = 0"
proof -
  have "(100::int) dvd 400" "(4::int) dvd 100" by simp_all
  then show "y mod 400 = 0 \<Longrightarrow> y mod 100 = 0" "y mod 100 = 0 \<Longrightarrow> y mod 4 = 0"
    by (auto simp: mod_eq_0_iff_dvd intro: dvd_trans)
qed

lemma days_before_year_step:
  "days_before_year (y + 1) = days_before_year y + 365 + (if is_leap y then 1 else 0)"
proof -
  define a4 :: int where "a4 = (if y mod 4 = 0 then 1 else 0)"
  define a100 :: int where "a100 = (if y mod 100 = 0 then 1 else 0)"
  define a400 :: int where "a400 = (if y mod 400 = 0 then 1 else 0)"
  have d4: "y div 4 = (y - 1) div 4 + a4"
    unfolding a4_def by (rule div_step) simp
  have d100: "y div 100 = (y - 1) div 100 + a100"
    unfolding a100_def by (rule div_step) simp
  have d400: "y div 400 = (y - 1) div 400 + a400"
    unfolding a400_def by (rule div_step) simp
  have "days_before_year (y + 1) = y * 365 + y div 4 - y div 100 + y div 400"
    by (simp add: days_before_year_def)
  also have "\<dots> = days_before_year y + 365 + (a4 - a100 + a400)"
    unfolding d4 d100 d400 days_before_year_def Let_def by (simp add: algebra_simps)
  finally have step: "days_before_year (y + 1) = days_before_year y + 365 + (a4 - a100 + a400)" .
  have "a4 - a100 + a400 = (if is_leap y then 1 else 0)"
    using mod_400_100_4 [of y] unfolding a4_def a100_def a400_def is_leap_def
    by (cases "y mod 4 = 0"; cases "y mod 100 = 0"; cases "y mod 400 = 0") simp_all
  with step show ?thesis by simp
qed

lemma month_cases:
  "1 \<le> m \<Longrightarrow> m \<le> 12 \<Longrightarrow>
   m = 1 \<or> m = 2 \<or> m = 3 \<or> m = 4 \<or> m = 5 \<or> m = 6 \<or> m = 7 \<or> m = 8 \<or> m = 9
   \<or> m = 10 \<or> m = 11 \<or> m = (12::int)"
  by arith

lemma days_in_month_simps:
  "days_in_month y 1 = 31" "days_in_month y 2 = (if is_leap y then 29 else 28)"
  "days_in_month y 3 = 31" "days_in_month y 4 = 30" "days_in_month y 5 = 31"
  "days_in_month y 6 = 30" "days_in_month y 7 = 31" "days_in_month y 8 = 31"
  "days_in_month y 9 = 30" "days_in_month y 10 = 31" "days_in_month y 11 = 30"
  "days_in_month y 12 = 31"
  by (simp_all add: days_in_month_def DAYS_IN_MONTH_def)

lemma DAYS_BEFORE_MONTH_eq:
  "DAYS_BEFORE_MONTH = [-1, 0, 31, 59, 90, 120, 151, 181, 212, 243, 273, 304, 334]"
  by (simp add: DAYS_BEFORE_MONTH_def DAYS_IN_MONTH_def)

lemma days_before_month_simps:
  "days_before_month y 1 = 0" "days_before_month y 2 = 31"
  "days_before_month y 3 = (if is_leap y then 60 else 59)"
  "days_before_month y 4 = (if is_leap y then 91 else 90)"
  "days_before_month y 5 = (if is_leap y then 121 else 120)"
  "days_before_month y 6 = (if is_leap y then 152 else 151)"
  "days_before_month y 7 = (if is_leap y then 182 else 181)"
  "days_before_month y 8 = (if is_leap y then 213 else 212)"
  "days_before_month y 9 = (if is_leap y then 244 else 243)"
  "days_before_month y 10 = (if is_leap y then 274 else 273)"
  "days_before_month y 11 = (if is_leap y then 305 else 304)"
  "days_before_month y 12 = (if is_leap y then 335 else 334)"
  by (simp_all add: days_before_month_def DAYS_BEFORE_MONTH_eq)

lemma day_of_year_bounds:
  assumes "1 \<le> m" "m \<le> 12" "1 \<le> d" "d \<le> days_in_month y m"
  shows "1 \<le> days_before_month y m + d"
    and "days_before_month y m + d \<le> 365 + (if is_leap y then 1 else 0)"
  using month_cases [OF assms(1,2)] assms(3,4)
  by (auto simp: days_in_month_simps days_before_month_simps split: if_splits)

lemma day_of_year_mono:
  assumes "1 \<le> m" "m \<le> 12" "1 \<le> d" "d \<le> days_in_month y m"
    and "1 \<le> m'" "m' \<le> 12" "1 \<le> d'" "d' \<le> days_in_month y m'"
    and "m < m'"
  shows "days_before_month y m + d < days_before_month y m' + d'"
  using month_cases [OF assms(1,2)] month_cases [OF assms(5,6)] assms(3,4,7,8,9)
  by (elim disjE; simp add: days_in_month_simps days_before_month_simps split: if_splits)

lemma days_before_year_next_le:
  "y < y' \<Longrightarrow> days_before_year (y + 1) \<le> days_before_year y'"
proof (induction y' rule: int_gr_induct)
  case base
  then show ?case by simp
next
  case (step i)
  have "days_before_year (y + 1) \<le> days_before_year i" by (rule step.IH)
  also have "\<dots> \<le> days_before_year (i + 1)"
    by (simp add: days_before_year_step)
  finally show ?case .
qed

lemma date_ok_iff:
  "date_ok dt \<longleftrightarrow>
     1 \<le> year dt \<and> year dt \<le> 9999 \<and> 1 \<le> month dt \<and> month dt \<le> 12
     \<and> 1 \<le> day dt \<and> day dt \<le> days_in_month (year dt) (month dt)"
  by (auto simp: date_ok_def check_date_fields_def MINYEAR_def MAXYEAR_def)

lemma toordinal_less:
  assumes "date_ok a" and "date_ok b" and "date_lt a b"
  shows "toordinal a < toordinal b"
proof (cases "year a < year b")
  case True
  from assms(1) have "days_before_month (year a) (month a) + day a
      \<le> 365 + (if is_leap (year a) then 1 else 0)"
    by (intro day_of_year_bounds) (simp_all add: date_ok_iff)
  then have "toordinal a \<le> days_before_year (year a + 1)"
    by (simp add: toordinal_def ymd2ord_def days_before_year_step)
  also have "\<dots> \<le> days_before_year (year b)"
    using True by (rule days_before_year_next_le)
  also have "\<dots> < toordinal b"
    using assms(2) day_of_year_bounds(1) [of "month b" "day b" "year b"]
    by (simp add: toordinal_def ymd2ord_def date_ok_iff)
  finally show ?thesis .
next
  case False
  with assms(3) have y: "year a = year b"
    and md: "month a < month b \<or> (month a = month b \<and> day a < day b)"
    by (auto simp: date_lt_def)
  from md show ?thesis
  proof
    assume "month a < month b"
    with assms(1,2) y
    have "days_before_month (year b) (month a) + day a
        < days_before_month (year b) (month b) + day b"
      by (intro day_of_year_mono) (simp_all add: date_ok_iff)
    with y show ?thesis by (simp add: toordinal_def ymd2ord_def)
  next
    assume "month a = month b \<and> day a < day b"
    with y show ?thesis by (simp add: toordinal_def ymd2ord_def)
  qed
qed

lemma date_le_iff: "date_le a b \<longleftrightarrow> date_lt a b \<or> (year a = year b \<and> month a = month b \<and> day a = day b)"
  by (auto simp: date_le_def date_lt_def)

lemma date_lt_total: "date_lt a b \<or> date_lt b a \<or> (year a = year b \<and> month a = month b \<and> day a = day b)"
  by (auto simp: date_lt_def)

lemma date_lt_iff_toordinal:
  assumes "date_ok a" and "date_ok b"
  shows "date_lt a b \<longleftrightarrow> toordinal a < toordinal b"
proof
  assume "date_lt a b"
  with assms show "toordinal a < toordinal b" by (rule toordinal_less)
next
  assume lt: "toordinal a < toordinal b"
  from date_lt_total [of a b] show "date_lt a b"
  proof (elim disjE)
    assume "date_lt b a"
    with assms have "toordinal b < toordinal a" by (intro toordinal_less)
    with lt show ?thesis by simp
  next
    assume "year a = year b \<and> month a = month b \<and> day a = day b"
    then have "toordinal a = toordinal b" by (simp add: toordinal_def)
    with lt show ?thesis by simp
  qed
qed

lemma date_le_iff_toordinal:
  assumes "date_ok a" and "date_ok b"
  shows "date_le a b \<longleftrightarrow> toordinal a \<le> toordinal b"
proof -
  have "date_le a b \<longleftrightarrow> \<not> date_lt b a"
    by (auto simp: date_le_def date_lt_def)
  also have "\<dots> \<longleftrightarrow> \<not> toordinal b < toordinal a"
    using assms by (simp add: date_lt_iff_toordinal)
  finally show ?thesis by auto
qed

lemma DI_values: "DI400Y = 146097" "DI100Y = 36524" "DI4Y = 1461"
  by (simp_all add: DI400Y_def DI100Y_def DI4Y_def days_before_year_def)

lemma days_before_year_cycles:
  assumes "0 \<le> b" "b \<le> 3" "0 \<le> c" "c \<le> 24" "0 \<le> e" "e \<le> 3"
  shows "days_before_year (400 * a + 100 * b + 4 * c + e + 1)
           = 146097 * a + 36524 * b + 1461 * c + 365 * e"
proof -
  let ?Y = "400 * a + 100 * b + 4 * c + e"
  have d4: "?Y div 4 = 100 * a + 25 * b + c"
    by (rule int_div_pos_eq [where r = e]) (use assms in simp_all)
  have d100: "?Y div 100 = 4 * a + b"
    by (rule int_div_pos_eq [where r = "4 * c + e"]) (use assms in simp_all)
  have d400: "?Y div 400 = a"
    by (rule int_div_pos_eq [where r = "100 * b + 4 * c + e"]) (use assms in simp_all)
  have "days_before_year (?Y + 1) = ?Y * 365 + ?Y div 4 - ?Y div 100 + ?Y div 400"
    by (simp add: days_before_year_def Let_def)
  also have "\<dots> = 146097 * a + 36524 * b + 1461 * c + 365 * e"
    unfolding d4 d100 d400 by simp
  finally show ?thesis .
qed

lemma is_leap_cycles:
  assumes "0 \<le> b" "b \<le> 3" "0 \<le> c" "c \<le> 24" "0 \<le> e" "e \<le> 3"
  shows "is_leap (400 * a + 100 * b + 4 * c + e + 1) \<longleftrightarrow> e = 3 \<and> (c \<noteq> 24 \<or> b = 3)"
proof -
  let ?y = "400 * a + 100 * b + 4 * c + e + 1"
  show ?thesis
  proof (cases "e = 3")
    case False
    have "?y mod 4 = e + 1"
      by (rule int_mod_pos_eq [where q = "100 * a + 25 * b + c"]) (use assms False in simp_all)
    with assms False show ?thesis by (simp add: is_leap_def)
  next
    case True
    have m4: "?y mod 4 = 0"
      by (rule int_mod_pos_eq [where q = "100 * a + 25 * b + c + 1"]) (use True in simp_all)
    show ?thesis
    proof (cases "c = 24")
      case c: False
      have "?y mod 100 = 4 * c + 4"
        by (rule int_mod_pos_eq [where q = "4 * a + b"]) (use assms True c in simp_all)
      with assms m4 True c show ?thesis by (simp add: is_leap_def)
    next
      case c: True
      have m100: "?y mod 100 = 0"
        by (rule int_mod_pos_eq [where q = "4 * a + b + 1"]) (use True c in simp_all)
      show ?thesis
      proof (cases "b = 3")
        case b: True
        have "?y mod 400 = 0"
          by (rule int_mod_pos_eq [where q = "a + 1"]) (use True c b in simp_all)
        with m4 True c b show ?thesis by (simp add: is_leap_def)
      next
        case b: False
        have "?y mod 400 = 100 * b + 100"
          by (rule int_mod_pos_eq [where q = a]) (use assms True c b in simp_all)
        with assms m4 m100 True c b show ?thesis by (simp add: is_leap_def)
      qed
    qed
  qed
qed

lemma month_day_of_offset:
  fixes r y :: int
  assumes "0 \<le> r" and "r \<le> 364"
    and m: "m = (r + 50) div 32"
    and p: "preceding = DAYS_BEFORE_MONTH ! nat m + (if m > 2 \<and> is_leap y then 1 else 0)"
    and p': "preceding' = preceding
      - (DAYS_IN_MONTH ! nat (m - 1) + (if m - 1 = 2 \<and> is_leap y then 1 else 0))"
  shows "preceding > r \<Longrightarrow>
      1 \<le> m - 1 \<and> m - 1 \<le> 12 \<and> 1 \<le> r - preceding' + 1
      \<and> r - preceding' + 1 \<le> days_in_month y (m - 1)
      \<and> days_before_month y (m - 1) + (r - preceding' + 1) = r + 1"
    and "\<not> preceding > r \<Longrightarrow>
      1 \<le> m \<and> m \<le> 12 \<and> 1 \<le> r - preceding + 1
      \<and> r - preceding + 1 \<le> days_in_month y m
      \<and> days_before_month y m + (r - preceding + 1) = r + 1"
proof -
  have "r + 50 = 32 * m + (r + 50) mod 32"
    by (simp add: m)
  moreover have "0 \<le> (r + 50) mod 32" "(r + 50) mod 32 < 32"
    by simp_all
  ultimately have lo: "32 * m \<le> r + 50" and hi: "r + 50 < 32 * m + 32"
    by linarith+
  with assms(1,2) have "1 \<le> m" "m \<le> 12" by linarith+
  note mc = month_cases [OF this]
  from mc lo hi assms(1,2) show "preceding > r \<Longrightarrow>
      1 \<le> m - 1 \<and> m - 1 \<le> 12 \<and> 1 \<le> r - preceding' + 1
      \<and> r - preceding' + 1 \<le> days_in_month y (m - 1)
      \<and> days_before_month y (m - 1) + (r - preceding' + 1) = r + 1"
    unfolding p' p
    by (elim disjE; simp add: DAYS_BEFORE_MONTH_eq DAYS_IN_MONTH_def days_in_month_simps
        days_before_month_simps split: if_splits)
  from mc lo hi assms(1,2) show "\<not> preceding > r \<Longrightarrow>
      1 \<le> m \<and> m \<le> 12 \<and> 1 \<le> r - preceding + 1
      \<and> r - preceding + 1 \<le> days_in_month y m
      \<and> days_before_month y m + (r - preceding + 1) = r + 1"
    unfolding p
    by (elim disjE; simp add: DAYS_BEFORE_MONTH_eq DAYS_IN_MONTH_def days_in_month_simps
        days_before_month_simps split: if_splits)
qed

lemma last_day_of_year:
  "ymd2ord y 12 31 = days_before_year (y + 1)"
  by (simp add: ymd2ord_def days_before_month_simps days_before_year_step)

lemma ord2ymd_correct:
  assumes "1 \<le> n"
  shows "case ord2ymd n of (y, m, d) \<Rightarrow>
           1 \<le> m \<and> m \<le> 12 \<and> 1 \<le> d \<and> d \<le> days_in_month y m \<and> ymd2ord y m d = n"
proof -
  define N where "N = n - 1"
  define a where "a = N div 146097"
  define r400 where "r400 = N mod 146097"
  define b where "b = r400 div 36524"
  define r100 where "r100 = r400 mod 36524"
  define c where "c = r100 div 1461"
  define r4 where "r4 = r100 mod 1461"
  define e where "e = r4 div 365"
  define r1 where "r1 = r4 mod 365"
  define Y where "Y = a * 400 + 1 + b * 100 + c * 4 + e"
  have N: "N = 146097 * a + r400" and r400: "0 \<le> r400" "r400 < 146097"
    by (simp_all add: a_def r400_def)
  have R400: "r400 = 36524 * b + r100" and r100: "0 \<le> r100" "r100 < 36524"
    by (simp_all add: b_def r100_def)
  have R100: "r100 = 1461 * c + r4" and r4: "0 \<le> r4" "r4 < 1461"
    by (simp_all add: c_def r4_def)
  have R4: "r4 = 365 * e + r1" and r1: "0 \<le> r1" "r1 < 365"
    by (simp_all add: e_def r1_def)
  have b: "0 \<le> b" "b \<le> 4" using R400 r400 r100 by linarith+
  have c: "0 \<le> c" "c \<le> 24" using R100 r100 r4 by linarith+
  have e: "0 \<le> e" "e \<le> 4" using R4 r4 r1 by linarith+
  have n: "n = 146097 * a + 36524 * b + 1461 * c + 365 * e + r1 + 1"
    using N R400 R100 R4 by (simp add: N_def)
  have unfold: "ord2ymd n =
    (if e = 4 \<or> b = 4 then (Y - 1, 12, 31)
     else
       let leapyear = (e = 3 \<and> (c \<noteq> 24 \<or> b = 3));
           m = (r1 + 50) div 32;
           preceding = DAYS_BEFORE_MONTH ! nat m + (if m > 2 \<and> leapyear then 1 else 0)
       in if preceding > r1
          then
            let m' = m - 1;
                preceding' = preceding
                  - (DAYS_IN_MONTH ! nat m' + (if m' = 2 \<and> leapyear then 1 else 0))
            in (Y, m', r1 - preceding' + 1)
          else (Y, m, r1 - preceding + 1))"
    unfolding ord2ymd_def DI_values
    by (simp only: Let_def N_def a_def r400_def b_def r100_def c_def r4_def e_def r1_def Y_def)
  show ?thesis
  proof (cases "e = 4 \<or> b = 4")
    case True
    have "days_before_year Y = n"
    proof (cases "b = 4")
      case b4: True
      with R400 r400 r100 have "r100 = 0" by linarith
      with R100 R4 r4 r1 c e have z: "c = 0" "e = 0" "r1 = 0" by linarith+
      have "days_before_year (400 * (a + 1) + 100 * 0 + 4 * 0 + 0 + 1)
          = 146097 * (a + 1) + 36524 * 0 + 1461 * 0 + 365 * 0"
        by (rule days_before_year_cycles) simp_all
      with b4 z n show ?thesis by (simp add: Y_def algebra_simps)
    next
      case b4: False
      with True have e4: "e = 4" by simp
      with R4 r4 r1 have r10: "r1 = 0" by linarith
      from e4 R4 R100 r100 r1 have c23: "c \<le> 23" by linarith
      have "days_before_year (400 * a + 100 * b + 4 * (c + 1) + 0 + 1)
          = 146097 * a + 36524 * b + 1461 * (c + 1) + 365 * 0"
        by (rule days_before_year_cycles) (use b b4 c c23 in simp_all)
      with e4 r10 n show ?thesis by (simp add: Y_def algebra_simps)
    qed
    then have "ymd2ord (Y - 1) 12 31 = n"
      by (simp add: last_day_of_year)
    with True show ?thesis
      by (simp add: unfold days_in_month_simps)
  next
    case False
    with b e have b3: "b \<le> 3" and e3: "e \<le> 3" by simp_all
    have Y: "Y = 400 * a + 100 * b + 4 * c + e + 1" by (simp add: Y_def)
    have dby: "days_before_year Y = 146097 * a + 36524 * b + 1461 * c + 365 * e"
      unfolding Y by (rule days_before_year_cycles) (use b c e b3 e3 in simp_all)
    have leap: "is_leap Y \<longleftrightarrow> e = 3 \<and> (c \<noteq> 24 \<or> b = 3)"
      unfolding Y by (rule is_leap_cycles) (use b c e b3 e3 in simp_all)
    from r1 have r1': "0 \<le> r1" "r1 \<le> 364" by simp_all
    define m where "m = (r1 + 50) div 32"
    define preceding
      where "preceding = DAYS_BEFORE_MONTH ! nat m + (if m > 2 \<and> is_leap Y then 1 else 0)"
    define preceding'
      where "preceding' = preceding
        - (DAYS_IN_MONTH ! nat (m - 1) + (if m - 1 = 2 \<and> is_leap Y then 1 else 0))"
    note md = month_day_of_offset [OF r1' m_def preceding_def preceding'_def]
    have res: "ord2ymd n =
        (if preceding > r1 then (Y, m - 1, r1 - preceding' + 1) else (Y, m, r1 - preceding + 1))"
      using False unfolding unfold Let_def leap [symmetric] m_def preceding_def preceding'_def
      by simp
    show ?thesis
    proof (cases "preceding > r1")
      case True
      from md(1) [OF True] True dby n show ?thesis
        unfolding res by (simp add: ymd2ord_def)
    next
      case False
      from md(2) [OF False] False dby n show ?thesis
        unfolding res by (simp add: ymd2ord_def)
    qed
  qed
qed

lemma days_before_year_mono: "y \<le> y' \<Longrightarrow> days_before_year y \<le> days_before_year y'"
proof -
  assume "y \<le> y'"
  then consider "y = y'" | "y < y'" by linarith
  then show ?thesis
  proof cases
    case 1
    then show ?thesis by simp
  next
    case 2
    have "days_before_year y \<le> days_before_year (y + 1)"
      by (simp add: days_before_year_step)
    also have "\<dots> \<le> days_before_year y'"
      using 2 by (rule days_before_year_next_le)
    finally show ?thesis .
  qed
qed

lemma days_before_year_values:
  "days_before_year 1 = 0" "days_before_year 10000 = 3652059"
  by (simp_all add: days_before_year_def)

lemma ymd2ord_year_bounds:
  assumes "1 \<le> m" "m \<le> 12" "1 \<le> d" "d \<le> days_in_month y m"
  shows "days_before_year y < ymd2ord y m d" and "ymd2ord y m d \<le> days_before_year (y + 1)"
  using day_of_year_bounds [OF assms]
  by (simp_all add: ymd2ord_def days_before_year_step)

lemma fromordinal_correct:
  assumes "1 \<le> n" and "n \<le> MAXORDINAL"
  shows "\<exists>dt. fromordinal n = Inr dt \<and> date_ok dt \<and> toordinal dt = n"
proof -
  obtain y m d where o: "ord2ymd n = (y, m, d)" by (cases "ord2ymd n") auto
  with ord2ymd_correct [OF assms(1)]
  have md: "1 \<le> m" "m \<le> 12" "1 \<le> d" "d \<le> days_in_month y m" and n: "ymd2ord y m d = n"
    by simp_all
  note yb = ymd2ord_year_bounds [OF md]
  have "1 \<le> y"
  proof (rule ccontr)
    assume "\<not> 1 \<le> y"
    then have "y + 1 \<le> 1" by simp
    then have "days_before_year (y + 1) \<le> days_before_year 1"
      by (rule days_before_year_mono)
    with yb(2) n assms(1) show False by (simp add: days_before_year_values)
  qed
  moreover have "y \<le> 9999"
  proof (rule ccontr)
    assume "\<not> y \<le> 9999"
    then have "10000 \<le> y" by simp
    then have "days_before_year 10000 \<le> days_before_year y"
      by (rule days_before_year_mono)
    with yb(1) n assms(2) show False by (simp add: days_before_year_values MAXORDINAL_def)
  qed
  ultimately have "check_date_fields y m d = Inr ()"
    using md by (simp add: check_date_fields_def MINYEAR_def MAXYEAR_def)
  then have "fromordinal n = Inr \<lparr>year = y, month = m, day = d\<rparr>"
    and "date_ok \<lparr>year = y, month = m, day = d\<rparr>"
    by (simp_all add: fromordinal_def o date_new_def date_ok_def)
  with n show ?thesis by (simp add: toordinal_def)
qed

lemma toordinal_positive: "date_ok dt \<Longrightarrow> 1 \<le> toordinal dt"
proof -
  assume ok: "date_ok dt"
  then have "days_before_year (year dt) < toordinal dt"
    unfolding toordinal_def by (intro ymd2ord_year_bounds) (simp_all add: date_ok_iff)
  moreover have "days_before_year 1 \<le> days_before_year (year dt)"
    using ok by (intro days_before_year_mono) (simp add: date_ok_iff)
  ultimately show ?thesis by (simp add: days_before_year_values)
qed

lemma toordinal_max: "date_ok dt \<Longrightarrow> toordinal dt \<le> MAXORDINAL"
proof -
  assume ok: "date_ok dt"
  then have "toordinal dt \<le> days_before_year (year dt + 1)"
    unfolding toordinal_def by (intro ymd2ord_year_bounds) (simp_all add: date_ok_iff)
  also have "\<dots> \<le> days_before_year 10000"
    using ok by (intro days_before_year_mono) (simp add: date_ok_iff)
  finally show ?thesis by (simp add: days_before_year_values MAXORDINAL_def)
qed

lemma toordinal_inject:
  assumes "date_ok a" and "date_ok b" and "toordinal a = toordinal b"
  shows "a = b"
proof -
  from assms have "\<not> date_lt a b" "\<not> date_lt b a"
    by (simp_all add: date_lt_iff_toordinal)
  with date_lt_total [of a b] show ?thesis by simp
qed

lemma date_add_days_ok:
  assumes "0 < toordinal dt + k" and "toordinal dt + k \<le> MAXORDINAL"
  shows "\<exists>dt'. date_add_days dt k = Inr dt' \<and> date_ok dt' \<and> toordinal dt' = toordinal dt + k"
  using fromordinal_correct [of "toordinal dt + k"] assms
  by (simp add: date_add_days_def Let_def)

lemma date_add_days_overflow:
  "\<not> (0 < toordinal dt + k \<and> toordinal dt + k \<le> MAXORDINAL) \<Longrightarrow>
   date_add_days dt k = Inl (OverflowError ''date value out of range'')"
  by (auto simp: date_add_days_def Let_def)

lemma date_new_ok: "date_new y m d = Inr dt \<Longrightarrow> date_ok dt \<and> dt = \<lparr>year = y, month = m, day = d\<rparr>"
  by (auto simp: date_new_def date_ok_def split: sum.splits)

lemma strptime_ok: "strptime s = Inr dt \<Longrightarrow> date_ok dt"
  unfolding strptime_def
  by (auto split: list.splits if_splits sum.splits prod.splits dest: date_new_ok)

lemma replace_year_ok:
  assumes "date_ok parsed" and "1 \<le> y" and "y \<le> 9999"
    and "day parsed \<le> days_in_month y (month parsed)"
  shows "replace_year parsed y = Inr \<lparr>year = y, month = month parsed, day = day parsed\<rparr>"
    and "date_ok \<lparr>year = y, month = month parsed, day = day parsed\<rparr>"
  using assms
  by (simp_all add: replace_year_def date_new_def check_date_fields_def date_ok_iff
      MINYEAR_def MAXYEAR_def)

lemma weekend_shift_in_range:
  assumes "o' \<le> MAXORDINAL"
  shows "(o' + 6) mod 7 = 5 \<Longrightarrow> o' + 2 \<le> MAXORDINAL"
    and "(o' + 6) mod 7 = 6 \<Longrightarrow> o' + 1 \<le> MAXORDINAL"
  using assms unfolding MAXORDINAL_def by presburger+

section \<open>Birthdays on 29 February\<close>

lemma is_error_simps: "is_error (Inl e)" "\<not> is_error (Inr v)"
  by (simp_all add: is_error_def)

lemma date_new_leap_day_raises: "\<not> is_leap y \<Longrightarrow> is_error (date_new y 2 29)"
  by (simp add: date_new_def check_date_fields_def days_in_month_simps is_error_def)

lemma upcoming_loop_raises:
  assumes "birthday r = Some b" and "strptime (field_value b) = Inr parsed"
    and "is_error (replace_year parsed (year today))"
  shows "r \<in> set rs \<Longrightarrow> is_error (upcoming_loop today w rs acc)"
proof (induction rs arbitrary: acc)
  case Nil
  then show ?case by simp
next
  case (Cons x rs)
  show ?case
  proof (cases "x = r")
    case True
    with assms show ?thesis
      by (simp add: is_error_def split: sum.splits)
  next
    case False
    with Cons.prems have "r \<in> set rs" by simp
    then have "\<And>acc. is_error (upcoming_loop today w rs acc)" by (rule Cons.IH)
    then show ?thesis
      by (simp add: is_error_simps split: option.split sum.split)
  qed
qed

text \<open>
  C9: a birthday string that parses to a 29 February (such as \<^verbatim>\<open>29.02.2024\<close>) is
  accepted at construction. For a record with that birthday, \<^verbatim>\<open>days_to_birthday\<close> raises
  when today's year is not a leap year, and also when the occurrence in today's year is
  before today and the next year is not a leap year; \<^verbatim>\<open>get_upcoming_birthdays\<close> raises
  for every book that holds the record when today's year is not a leap year.
\<close>

theorem leap_day_birthday_raises:
  assumes "strptime b = Inr parsed" and "month parsed = 2" and "day parsed = 29"
    and "birthday r = Some (Field_obj b)"
  shows "Birthday b = Inr (Field_obj b)
    \<and> (\<not> is_leap (year today) \<longrightarrow> is_error (days_to_birthday today r))
    \<and> (date_lt \<lparr>year = year today, month = 2, day = 29\<rparr> today
          \<and> \<not> is_leap (year today + 1) \<longrightarrow>
        is_error (days_to_birthday today r))
    \<and> (r \<in> snd ` set book \<and> \<not> is_leap (year today) \<longrightarrow>
        is_error (get_upcoming_birthdays today book))"
proof (intro conjI impI)
  show "Birthday b = Inr (Field_obj b)"
    using assms(1) by (simp add: Birthday_def validate_birthday_def)
next
  assume "\<not> is_leap (year today)"
  then show "is_error (days_to_birthday today r)"
    using assms date_new_leap_day_raises [of "year today"]
    by (simp add: days_to_birthday_def replace_year_def is_error_def split: sum.splits)
next
  assume h: "date_lt \<lparr>year = year today, month = 2, day = 29\<rparr> today
    \<and> \<not> is_leap (year today + 1)"
  show "is_error (days_to_birthday today r)"
  proof (cases "replace_year parsed (year today)")
    case (Inl e)
    with assms show ?thesis
      by (simp add: days_to_birthday_def is_error_def)
  next
    case (Inr occ)
    then have occ: "occ = \<lparr>year = year today, month = 2, day = 29\<rparr>"
      using assms by (simp add: replace_year_def date_new_def split: sum.splits)
    have "is_error (replace_year occ (year today + 1))"
      using h date_new_leap_day_raises [of "year today + 1"]
      by (simp add: occ replace_year_def)
    with h assms Inr show ?thesis
      by (simp add: days_to_birthday_def is_error_def occ split: sum.splits)
  qed
next
  assume h: "r \<in> snd ` set book \<and> \<not> is_leap (year today)"
  then have e: "is_error (replace_year parsed (year today))"
    using assms date_new_leap_day_raises [of "year today"] by (simp add: replace_year_def)
  from h have "r \<in> set (map snd book)" by simp
  then have "\<And>w. is_error (upcoming_loop today w (map snd book) [])"
    using upcoming_loop_raises [of r "Field_obj b" parsed today] assms(1,4) e by simp
  then show "is_error (get_upcoming_birthdays today book)"
    by (simp add: get_upcoming_birthdays_def is_error_simps split: sum.split)
qed

theorem leap_day_birthday_raises_witness:
  "strptime ''29.02.2024'' = Inr \<lparr>year = 2024, month = 2, day = 29\<rparr>
   \<and> Birthday ''29.02.2024'' = Inr (Field_obj ''29.02.2024'')
   \<and> \<not> is_leap 2025
   \<and> is_error (days_to_birthday \<lparr>year = 2025, month = 1, day = 1\<rparr>
        \<lparr>name = Field_obj ''Ann'', phones = [], birthday = Some (Field_obj ''29.02.2024'')\<rparr>)
   \<and> date_lt \<lparr>year = 2024, month = 2, day = 29\<rparr> \<lparr>year = 2024, month = 3, day = 1\<rparr>
   \<and> is_error (days_to_birthday \<lparr>year = 2024, month = 3, day = 1\<rparr>
        \<lparr>name = Field_obj ''Ann'', phones = [], birthday = Some (Field_obj ''29.02.2024'')\<rparr>)
   \<and> is_error (get_upcoming_birthdays \<lparr>year = 2025, month = 1, day = 1\<rparr>
        [(''Ann'', \<lparr>name = Field_obj ''Ann'', phones = [],
                    birthday = Some (Field_obj ''29.02.2024'')\<rparr>)])"
proof -
  let ?r = "\<lparr>name = Field_obj ''Ann'', phones = [], birthday = Some (Field_obj ''29.02.2024'')\<rparr>"
  have p: "strptime ''29.02.2024'' = Inr \<lparr>year = 2024, month = 2, day = 29\<rparr>"
    by code_simp
  have n25: "\<not> is_leap 2025"
    by (simp add: is_leap_def)
  have lt: "date_lt \<lparr>year = 2024, month = 2, day = 29\<rparr> \<lparr>year = 2024, month = 3, day = 1\<rparr>"
    by (simp add: date_lt_def)
  have b: "birthday ?r = Some (Field_obj ''29.02.2024'')" by simp
  have m: "month \<lparr>year = 2024, month = 2, day = 29\<rparr> = 2"
    and d: "day \<lparr>year = 2024, month = 2, day = 29\<rparr> = 29" by simp_all
  from leap_day_birthday_raises
    [OF p m d b, of "\<lparr>year = 2025, month = 1, day = 1\<rparr>" "[(''Ann'', ?r)]"] n25
  have 1: "Birthday ''29.02.2024'' = Inr (Field_obj ''29.02.2024'')"
    and 2: "is_error (days_to_birthday \<lparr>year = 2025, month = 1, day = 1\<rparr> ?r)"
    and 4: "is_error (get_upcoming_birthdays \<lparr>year = 2025, month = 1, day = 1\<rparr> [(''Ann'', ?r)])"
    by simp_all
  from leap_day_birthday_raises
    [OF p m d b, of "\<lparr>year = 2024, month = 3, day = 1\<rparr>" "[]"] lt n25
  have 3: "is_error (days_to_birthday \<lparr>year = 2024, month = 3, day = 1\<rparr> ?r)"
    by simp
  from p 1 n25 2 lt 3 4 show ?thesis by blast
qed

section \<open>Days to the birthday and the report, when every occurrence exists\<close>

text \<open>
  When the birthdays of the book are valid strings and occur in today's year, and today
  is at least a week before the last day of year 9999, \<^verbatim>\<open>get_upcoming_birthdays\<close> returns:
  its entries are, in the order of the book, those of the records whose occurrence is
  from 0 to 7 days after today, each with the record's name and the date 2 days after a
  Saturday, 1 day after a Sunday and the occurrence itself otherwise. When the birthday
  occurs in the year it is moved to, \<^verbatim>\<open>days_to_birthday\<close> returns the number of days to
  the occurrence in today's year, or in the next year when that one is before today, and
  the number is not negative.
\<close>

lemma shifted_date:
  assumes "date_ok occ" and "toordinal occ \<le> MAXORDINAL"
  shows "\<exists>s. (if weekday occ = 5 then date_add_days occ 2
              else if weekday occ = 6 then date_add_days occ 1
              else Inr occ) = Inr s
           \<and> date_ok s \<and> toordinal s = toordinal occ + weekend_shift occ"
proof -
  note pos = toordinal_positive [OF assms(1)]
  consider "weekday occ = 5" | "weekday occ = 6" | "weekday occ \<noteq> 5" "weekday occ \<noteq> 6"
    by blast
  then show ?thesis
  proof cases
    case 1
    then have "toordinal occ + 2 \<le> MAXORDINAL"
      using weekend_shift_in_range(1) [OF assms(2)] by (simp add: weekday_def)
    with pos date_add_days_ok [of occ 2] 1 show ?thesis
      by (simp add: weekend_shift_def)
  next
    case 2
    then have "toordinal occ + 1 \<le> MAXORDINAL"
      using weekend_shift_in_range(2) [OF assms(2)] by (simp add: weekday_def)
    with pos date_add_days_ok [of occ 1] 2 show ?thesis
      by (simp add: weekend_shift_def)
  next
    case 3
    with assms(1) show ?thesis by (simp add: weekend_shift_def)
  qed
qed

lemma upcoming_loop_general:
  assumes "date_ok today" and "date_ok w" and "toordinal w = toordinal today + 7"
  shows "\<forall>r \<in> set rs. occurs_in_year (year today) r \<Longrightarrow>
    \<exists>res. upcoming_loop today w rs acc = Inr (acc @ res)
       \<and> list_all2 (reported today) res (filter (in_window today) rs)"
proof (induction rs arbitrary: acc)
  case Nil
  then show ?case by simp
next
  case (Cons r rs)
  then have IH: "\<And>acc. \<exists>res. upcoming_loop today w rs acc = Inr (acc @ res)
       \<and> list_all2 (reported today) res (filter (in_window today) rs)"
    by simp
  show ?case
  proof (cases "birthday r")
    case None
    then have "\<not> in_window today r" by (simp add: in_window_def occurrence_def)
    with None IH [of acc] show ?thesis by simp
  next
    case (Some b)
    with Cons.prems obtain parsed where p: "strptime (field_value b) = Inr parsed"
      and d: "day parsed \<le> days_in_month (year today) (month parsed)"
      by (auto simp: occurs_in_year_def split: sum.splits)
    define occ where "occ = \<lparr>year = year today, month = month parsed, day = day parsed\<rparr>"
    from assms(1) have y: "1 \<le> year today" "year today \<le> 9999" by (simp_all add: date_ok_iff)
    note ry = replace_year_ok [OF strptime_ok [OF p] y d, folded occ_def]
    have o: "occurrence today r = Some occ"
      by (simp add: occurrence_def Some p occ_def)
    have win: "date_le today occ \<and> date_le occ w \<longleftrightarrow> in_window today r"
      using assms ry(2) by (simp add: in_window_def o date_le_iff_toordinal)
    show ?thesis
    proof (cases "in_window today r")
      case True
      then have "toordinal occ \<le> toordinal w"
        using assms(3) by (simp add: in_window_def o)
      also have "\<dots> \<le> MAXORDINAL" using assms(2) by (rule toordinal_max)
      finally obtain s where s: "(if weekday occ = 5 then date_add_days occ 2
              else if weekday occ = 6 then date_add_days occ 1
              else Inr occ) = Inr s"
        and s_ok: "date_ok s" "toordinal s = toordinal occ + weekend_shift occ"
        using shifted_date [OF ry(2)] by blast
      from IH [of "acc @ [(field_value (name r), s)]"] obtain res
        where res: "upcoming_loop today w rs (acc @ [(field_value (name r), s)])
            = Inr (acc @ (field_value (name r), s) # res)"
          and rest: "list_all2 (reported today) res (filter (in_window today) rs)"
        by auto
      have "reported today (field_value (name r), s) r"
        using s_ok by (simp add: reported_def o)
      with rest True
      have "list_all2 (reported today) ((field_value (name r), s) # res)
              (filter (in_window today) (r # rs))"
        by simp
      moreover from True win have yw: "(date_le today occ \<and> date_le occ w) = True" by simp
      have "upcoming_loop today w (r # rs) acc
          = Inr (acc @ (field_value (name r), s) # res)"
        using res by (simp add: Some p ry(1) yw s)
      ultimately show ?thesis by blast
    next
      case False
      with win have nw: "(date_le today occ \<and> date_le occ w) = False" by simp
      from False IH [of acc] show ?thesis
        by (simp add: Some p ry(1) nw)
    qed
  qed
qed

lemma get_upcoming_birthdays_general:
  assumes "date_ok today" and "toordinal today + 7 \<le> MAXORDINAL"
    and "\<forall>r \<in> snd ` set book. occurs_in_year (year today) r"
  shows "\<exists>res. get_upcoming_birthdays today book = Inr res
    \<and> list_all2 (reported today) res (filter (in_window today) (map snd book))"
proof -
  from toordinal_positive [OF assms(1)] assms(2)
  obtain w where w: "date_add_days today 7 = Inr w" "date_ok w"
    "toordinal w = toordinal today + 7"
    using date_add_days_ok [of today 7] by auto
  from assms(3) have "\<forall>r \<in> set (map snd book). occurs_in_year (year today) r" by simp
  from upcoming_loop_general [OF assms(1) w(2,3) this, of "[]"] w(1)
  show ?thesis by (simp add: get_upcoming_birthdays_def)
qed

lemma days_to_birthday_general:
  assumes "date_ok today" and "birthday r = Some b" and "strptime (field_value b) = Inr parsed"
    and "day parsed \<le> days_in_month (year today) (month parsed)"
    and "date_lt \<lparr>year = year today, month = month parsed, day = day parsed\<rparr> today \<longrightarrow>
           year today < 9999 \<and> day parsed \<le> days_in_month (year today + 1) (month parsed)"
  shows "\<exists>nxt. days_to_birthday today r = Inr (Some (toordinal nxt - toordinal today))
    \<and> 0 \<le> toordinal nxt - toordinal today
    \<and> date_ok nxt \<and> month nxt = month parsed \<and> day nxt = day parsed
    \<and> year nxt =
        (if date_lt \<lparr>year = year today, month = month parsed, day = day parsed\<rparr> today
         then year today + 1 else year today)"
proof -
  define occ where "occ = \<lparr>year = year today, month = month parsed, day = day parsed\<rparr>"
  from assms(1) have y: "1 \<le> year today" "year today \<le> 9999" by (simp_all add: date_ok_iff)
  note p_ok = strptime_ok [OF assms(3)]
  note ry = replace_year_ok [OF p_ok y assms(4), folded occ_def]
  show ?thesis
  proof (cases "date_lt occ today")
    case True
    with assms(5) have y1: "1 \<le> year today + 1" "year today + 1 \<le> 9999"
      and d1: "day parsed \<le> days_in_month (year today + 1) (month parsed)"
      using y by (simp_all add: occ_def)
    define nxt where "nxt = \<lparr>year = year today + 1, month = month parsed, day = day parsed\<rparr>"
    note rn = replace_year_ok [OF p_ok y1 d1, folded nxt_def]
    have "replace_year occ (year today + 1) = Inr nxt"
      using rn(1) by (simp add: replace_year_def occ_def)
    with True have run: "days_to_birthday today r = Inr (Some (toordinal nxt - toordinal today))"
      by (simp add: days_to_birthday_def assms(2,3) ry(1) date_sub_days_def)
    have "date_lt today nxt" by (simp add: date_lt_def nxt_def)
    with assms(1) rn(2) have "toordinal today < toordinal nxt" by (simp add: date_lt_iff_toordinal)
    with run rn(2) True show ?thesis
      by (intro exI [of _ nxt]) (simp add: nxt_def occ_def)
  next
    case False
    then have run: "days_to_birthday today r = Inr (Some (toordinal occ - toordinal today))"
      by (simp add: days_to_birthday_def assms(2,3) ry(1) date_sub_days_def)
    from False assms(1) ry(2) have "toordinal today \<le> toordinal occ"
      by (simp add: date_lt_iff_toordinal)
    with run ry(2) False show ?thesis
      by (intro exI [of _ occ]) (simp add: occ_def)
  qed
qed

lemma get_upcoming_birthdays_general_instance:
  "\<exists>res. get_upcoming_birthdays \<lparr>year = 2024, month = 6, day = 10\<rparr>
           [(''Ann'', \<lparr>name = Field_obj ''Ann'', phones = [], birthday = None\<rparr>),
            (''Bob'', \<lparr>name = Field_obj ''Bob'', phones = [],
                       birthday = Some (Field_obj ''15.06.1990'')\<rparr>)] = Inr res
     \<and> list_all2 (reported \<lparr>year = 2024, month = 6, day = 10\<rparr>) res
          [\<lparr>name = Field_obj ''Bob'', phones = [], birthday = Some (Field_obj ''15.06.1990'')\<rparr>]"
proof -
  let ?today = "\<lparr>year = 2024, month = 6, day = 10\<rparr>"
  let ?ann = "\<lparr>name = Field_obj ''Ann'', phones = [], birthday = None\<rparr>"
  let ?bob = "\<lparr>name = Field_obj ''Bob'', phones = [], birthday = Some (Field_obj ''15.06.1990'')\<rparr>"
  have ok: "date_ok ?today" by code_simp
  have range: "toordinal ?today + 7 \<le> MAXORDINAL" by code_simp
  have "occurs_in_year 2024 ?ann" "occurs_in_year 2024 ?bob" by code_simp+
  then have occ: "\<forall>r \<in> snd ` set [(''Ann'', ?ann), (''Bob'', ?bob)]. occurs_in_year (year ?today) r"
    by simp
  have "\<not> in_window ?today ?ann" "in_window ?today ?bob" by code_simp+
  then have "filter (in_window ?today) (map snd [(''Ann'', ?ann), (''Bob'', ?bob)]) = [?bob]"
    by simp
  with get_upcoming_birthdays_general [OF ok range occ] show ?thesis by simp
qed

lemma days_to_birthday_general_instance:
  "\<exists>nxt. days_to_birthday \<lparr>year = 2024, month = 6, day = 16\<rparr>
            \<lparr>name = Field_obj ''Bob'', phones = [], birthday = Some (Field_obj ''15.06.1990'')\<rparr>
          = Inr (Some (toordinal nxt - toordinal \<lparr>year = 2024, month = 6, day = 16\<rparr>))
     \<and> 0 \<le> toordinal nxt - toordinal \<lparr>year = 2024, month = 6, day = 16\<rparr>
     \<and> year nxt = 2025 \<and> month nxt = 6 \<and> day nxt = 15"
proof -
  let ?today = "\<lparr>year = 2024, month = 6, day = 16\<rparr>"
  let ?bob = "\<lparr>name = Field_obj ''Bob'', phones = [], birthday = Some (Field_obj ''15.06.1990'')\<rparr>"
  have ok: "date_ok ?today" by code_simp
  have b: "birthday ?bob = Some (Field_obj ''15.06.1990'')" by simp
  have p: "strptime (field_value (Field_obj ''15.06.1990'')) = Inr \<lparr>year = 1990, month = 6, day = 15\<rparr>"
    by code_simp
  have d: "day \<lparr>year = 1990, month = 6, day = 15\<rparr>
      \<le> days_in_month (year ?today) (month \<lparr>year = 1990, month = 6, day = 15\<rparr>)"
    by code_simp
  have lt: "date_lt \<lparr>year = year ?today, month = month \<lparr>year = 1990, month = 6, day = 15\<rparr>,
                     day = day \<lparr>year = 1990, month = 6, day = 15\<rparr>\<rparr> ?today"
    by code_simp
  have n: "date_lt \<lparr>year = year ?today, month = month \<lparr>year = 1990, month = 6, day = 15\<rparr>,
                     day = day \<lparr>year = 1990, month = 6, day = 15\<rparr>\<rparr> ?today \<longrightarrow>
      year ?today < 9999
      \<and> day \<lparr>year = 1990, month = 6, day = 15\<rparr>
          \<le> days_in_month (year ?today + 1) (month \<lparr>year = 1990, month = 6, day = 15\<rparr>)"
    by code_simp
  from days_to_birthday_general [OF ok b p d n] lt show ?thesis
    by auto
qed

text \<open>
  C2, at a failing input: for a record whose birthday is 29 February 2024 and today
  1 January 2025, \<^verbatim>\<open>days_to_birthday\<close> raises \<^verbatim>\<open>ValueError\<close> where the claim promises
  the number of days to the next occurrence. (For the birthdays that occur in the year
  they are moved to, \<open>days_to_birthday_general\<close> proves what the claim says.)
\<close>

theorem days_to_birthday_leap_day_raises:
  "days_to_birthday \<lparr>year = 2025, month = 1, day = 1\<rparr>
     \<lparr>name = Field_obj ''Ann'', phones = [], birthday = Some (Field_obj ''29.02.2024'')\<rparr>
   = Inl (ValueError ''day is out of range for month'')"
  by code_simp

text \<open>
  C1, at a failing input: on 1 January 2025, a book with a birthday on 29 February and
  a birthday on 3 January makes \<^verbatim>\<open>get_upcoming_birthdays\<close> raise \<^verbatim>\<open>ValueError\<close>, where
  the claim promises the list with the one record whose occurrence is in the window;
  without the first record that list is returned. (For the books whose birthdays all
  occur in today's year, \<open>get_upcoming_birthdays_general\<close> proves what the claim says.)
\<close>

theorem get_upcoming_birthdays_leap_day_raises:
  "get_upcoming_birthdays \<lparr>year = 2025, month = 1, day = 1\<rparr>
     [(''Ann'', \<lparr>name = Field_obj ''Ann'', phones = [],
                 birthday = Some (Field_obj ''29.02.2024'')\<rparr>),
      (''Bob'', \<lparr>name = Field_obj ''Bob'', phones = [],
                 birthday = Some (Field_obj ''03.01.1990'')\<rparr>)]
     = Inl (ValueError ''day is out of range for month'')
   \<and> get_upcoming_birthdays \<lparr>year = 2025, month = 1, day = 1\<rparr>
     [(''Bob'', \<lparr>name = Field_obj ''Bob'', phones = [],
                 birthday = Some (Field_obj ''03.01.1990'')\<rparr>)]
     = Inr [(''Bob'', \<lparr>year = 2025, month = 1, day = 3\<rparr>)]"
  by code_simp

section \<open>Birthday strings\<close>

lemma in_map_cons_iff:
  "(t', r) \<in> (\<lambda>(t, r). (c # t, r)) ` S \<longleftrightarrow> (\<exists>t. t' = c # t \<and> (t, r) \<in> S)"
  by force

lemma match_classes_iff:
  "(t, r) \<in> set (match_classes ps s) \<longleftrightarrow> s = t @ r \<and> list_all2 (\<lambda>p c. p c) ps t"
proof (induction ps s arbitrary: t rule: match_classes.induct)
  case (1 s)
  then show ?case by auto
next
  case (2 p ps)
  then show ?case by (auto simp: list_all2_Cons1)
next
  case (3 p ps c s)
  show ?case
  proof (cases "p c")
    case True
    then have "(t, r) \<in> set (match_classes (p # ps) (c # s))
        \<longleftrightarrow> (\<exists>u. t = c # u \<and> (u, r) \<in> set (match_classes ps s))"
      by (simp add: in_map_cons_iff)
    also have "\<dots> \<longleftrightarrow> (\<exists>u. t = c # u \<and> s = u @ r \<and> list_all2 (\<lambda>p c. p c) ps u)"
      using 3 True by simp
    also have "\<dots> \<longleftrightarrow> c # s = t @ r \<and> list_all2 (\<lambda>p c. p c) (p # ps) t"
      using True by (auto simp: list_all2_Cons1)
    finally show ?thesis .
  next
    case False
    then show ?thesis by (auto simp: list_all2_Cons1)
  qed
qed

lemma match_alternatives_iff:
  "(t, r) \<in> set (match_alternatives alts s) \<longleftrightarrow> s = t @ r \<and> accepts alts t"
  by (auto simp: match_alternatives_def accepts_def match_classes_iff)

lemma of_char_is: "(of_char d :: nat) = n \<Longrightarrow> ((of_char c :: nat) = n) = (c = d)"
  by auto

lemma digit_codes:
    "((of_char c :: nat) = 48) = (c = CHR ''0'')"
    "((of_char c :: nat) = 49) = (c = CHR ''1'')"
    "((of_char c :: nat) = 50) = (c = CHR ''2'')"
    "((of_char c :: nat) = 51) = (c = CHR ''3'')"
    "((of_char c :: nat) = 52) = (c = CHR ''4'')"
    "((of_char c :: nat) = 53) = (c = CHR ''5'')"
    "((of_char c :: nat) = 54) = (c = CHR ''6'')"
    "((of_char c :: nat) = 55) = (c = CHR ''7'')"
    "((of_char c :: nat) = 56) = (c = CHR ''8'')"
    "((of_char c :: nat) = 57) = (c = CHR ''9'')"
  by (rule of_char_is, simp)+

lemma dot_not_digit: "\<not> decimal_digit (CHR ''.'')" "\<not> decimal_digit (CHR '' '')"
  by (simp_all add: decimal_digit_def)

lemma number_of_simps:
  "number_of [a] = digit_value a"
  "number_of [a, b] = 10 * digit_value a + digit_value b"
  "number_of [a, b, c, e] =
     1000 * digit_value a + 100 * digit_value b + 10 * digit_value c + digit_value e"
  by (simp_all add: number_of_def)

lemma digit_value_range: "decimal_digit c \<Longrightarrow> 0 \<le> digit_value c \<and> digit_value c \<le> 9"
  by (auto simp: decimal_digit_def digit_value_def)

lemma one_of_digit:
  "one_of ''0'' c \<longleftrightarrow> decimal_digit c \<and> digit_value c = 0"
  "one_of ''1'' c \<longleftrightarrow> decimal_digit c \<and> digit_value c = 1"
  "one_of ''3'' c \<longleftrightarrow> decimal_digit c \<and> digit_value c = 3"
  "one_of ''01'' c \<longleftrightarrow> decimal_digit c \<and> digit_value c \<le> 1"
  "one_of ''12'' c \<longleftrightarrow> decimal_digit c \<and> 1 \<le> digit_value c \<and> digit_value c \<le> 2"
  "one_of ''012'' c \<longleftrightarrow> decimal_digit c \<and> digit_value c \<le> 2"
  "one_of ''123456789'' c \<longleftrightarrow> decimal_digit c \<and> 1 \<le> digit_value c"
  unfolding one_of_def decimal_digit_def digit_value_def
  by (simp_all flip: digit_codes) arith+

lemma one_of_blank: "one_of '' '' c \<longleftrightarrow> c = CHR '' ''"
  by (auto simp: one_of_def)

lemma accepts_d_pair:
  "accepts
     [[one_of ''3'', one_of ''01''],
      [one_of ''12'', decimal_digit],
      [one_of ''0'', one_of ''123456789''],
      [one_of ''123456789''],
      [one_of '' '', one_of ''123456789'']] [a, b]
   \<longleftrightarrow> (decimal_digit a \<and> digit_value a = 3 \<and> decimal_digit b \<and> digit_value b \<le> 1)
     \<or> (decimal_digit a \<and> 1 \<le> digit_value a \<and> digit_value a \<le> 2 \<and> decimal_digit b)
     \<or> (decimal_digit a \<and> digit_value a = 0 \<and> decimal_digit b \<and> 1 \<le> digit_value b)
     \<or> (a = CHR '' '' \<and> decimal_digit b \<and> 1 \<le> digit_value b)"
  by (simp add: accepts_def one_of_digit one_of_blank list_all2_Cons1)

lemma accepts_d_iff:
  "accepts
     [[one_of ''3'', one_of ''01''],
      [one_of ''12'', decimal_digit],
      [one_of ''0'', one_of ''123456789''],
      [one_of ''123456789''],
      [one_of '' '', one_of ''123456789'']] d
   \<longleftrightarrow> day_text d \<and> 1 \<le> day_number d \<and> day_number d \<le> 31"
proof (cases d)
  case Nil
  then show ?thesis by (simp add: accepts_def day_text_def)
next
  case d1: (Cons a u)
  show ?thesis
  proof (cases u)
    case Nil
    show ?thesis
    proof (cases "decimal_digit a")
      case True
      with d1 Nil digit_value_range [of a] show ?thesis
        by (auto simp: accepts_def day_text_def day_number_def number_of_simps one_of_digit
            dot_not_digit list_all2_Cons1)
    next
      case False
      with d1 Nil show ?thesis
        by (auto simp: accepts_def day_text_def one_of_digit list_all2_Cons1)
    qed
  next
    case d2: (Cons b v)
    show ?thesis
    proof (cases v)
      case Nil
      with d1 d2 have d: "d = [a, b]" by simp
      show ?thesis
      proof (cases "a = CHR '' ''")
        case True
        show ?thesis
        proof (cases "decimal_digit b")
          case db: True
          with True digit_value_range [of b] show ?thesis
            unfolding d accepts_d_pair
            by (auto simp: day_text_def day_number_def number_of_simps dot_not_digit)
        next
          case False
          with True show ?thesis
            unfolding d accepts_d_pair by (simp add: day_text_def dot_not_digit)
        qed
      next
        case False
        show ?thesis
        proof (cases "decimal_digit a \<and> decimal_digit b")
          case True
          with False digit_value_range [of a] digit_value_range [of b] show ?thesis
            unfolding d accepts_d_pair
            by (simp add: day_text_def day_number_def number_of_simps) arith
        next
          case nd: False
          with False show ?thesis
            unfolding d accepts_d_pair by (auto simp: day_text_def)
        qed
      qed
    next
      case (Cons c w)
      with d1 d2 show ?thesis
        by (simp add: accepts_def day_text_def list_all2_Cons1)
    qed
  qed
qed

lemma accepts_m_iff:
  "accepts
     [[one_of ''1'', one_of ''012''],
      [one_of ''0'', one_of ''123456789''],
      [one_of ''123456789'']] m
   \<longleftrightarrow> month_text m \<and> 1 \<le> number_of m \<and> number_of m \<le> 12"
proof (cases m)
  case Nil
  then show ?thesis by (simp add: accepts_def month_text_def)
next
  case m1: (Cons a u)
  show ?thesis
  proof (cases u)
    case Nil
    show ?thesis
    proof (cases "decimal_digit a")
      case True
      with m1 Nil digit_value_range [of a] show ?thesis
        by (auto simp: accepts_def month_text_def number_of_simps one_of_digit list_all2_Cons1)
    next
      case False
      with m1 Nil show ?thesis
        by (auto simp: accepts_def month_text_def one_of_digit list_all2_Cons1)
    qed
  next
    case m2: (Cons b v)
    show ?thesis
    proof (cases v)
      case Nil
      with m1 m2 have m: "m = [a, b]" by simp
      have pair: "accepts
         [[one_of ''1'', one_of ''012''],
          [one_of ''0'', one_of ''123456789''],
          [one_of ''123456789'']] [a, b]
        \<longleftrightarrow> (decimal_digit a \<and> digit_value a = 1 \<and> decimal_digit b \<and> digit_value b \<le> 2)
          \<or> (decimal_digit a \<and> digit_value a = 0 \<and> decimal_digit b \<and> 1 \<le> digit_value b)"
        by (simp add: accepts_def one_of_digit list_all2_Cons1)
      show ?thesis
      proof (cases "decimal_digit a \<and> decimal_digit b")
        case True
        with digit_value_range [of a] digit_value_range [of b] show ?thesis
          unfolding m pair by (simp add: month_text_def number_of_simps) arith
      next
        case False
        then show ?thesis
          unfolding m pair by (auto simp: month_text_def)
      qed
    next
      case (Cons c w)
      with m1 m2 show ?thesis
        by (simp add: accepts_def month_text_def list_all2_Cons1)
    qed
  qed
qed

lemma accepts_Y_iff:
  "accepts [[decimal_digit, decimal_digit, decimal_digit, decimal_digit]] y \<longleftrightarrow> year_text y"
  by (auto simp: accepts_def year_text_def list_all2_Cons1 length_Suc_conv
      numeral_eq_Suc)

lemma accepts_dot_iff: "accepts [[one_of ''.'']] t \<longleftrightarrow> t = ''.''"
  by (auto simp: accepts_def one_of_def list_all2_Cons1)

lemma in_set_concat_map_pair:
  "z \<in> set (concat (map (\<lambda>(a, b). f a b) xs)) \<longleftrightarrow> (\<exists>a b. (a, b) \<in> set xs \<and> z \<in> set (f a b))"
  by (induction xs) auto

lemma in_image_triple:
  "(d, m, z) \<in> (\<lambda>x. (a, b, x)) ` S \<longleftrightarrow> d = a \<and> m = b \<and> z \<in> S"
  by auto

lemma format_regex_match_steps:
  "(d, m, y, r) \<in> set (format_regex_match s) \<longleftrightarrow>
     (\<exists>r1 dot1 r2 r3 dot2 r4.
        (d, r1) \<in> set (re_d s) \<and> (dot1, r2) \<in> set (re_dot r1) \<and>
        (m, r3) \<in> set (re_m r2) \<and> (dot2, r4) \<in> set (re_dot r3) \<and>
        (y, r) \<in> set (re_Y r4))"
  unfolding format_regex_match_def in_set_concat_map_pair
  by (simp add: in_image_triple) blast

lemma format_regex_match_iff:
  "(d, m, y, r) \<in> set (format_regex_match s) \<longleftrightarrow>
     s = d @ ''.'' @ m @ ''.'' @ y @ r
     \<and> (day_text d \<and> 1 \<le> day_number d \<and> day_number d \<le> 31)
     \<and> (month_text m \<and> 1 \<le> number_of m \<and> number_of m \<le> 12)
     \<and> year_text y"
  unfolding format_regex_match_steps re_d_def re_m_def re_Y_def re_dot_def
    match_alternatives_iff accepts_dot_iff accepts_d_iff accepts_m_iff accepts_Y_iff
  by auto

lemma day_text_no_dot: "day_text d \<Longrightarrow> CHR ''.'' \<notin> set d"
  by (auto simp: day_text_def dot_not_digit split: list.splits)

lemma month_text_no_dot: "month_text m \<Longrightarrow> CHR ''.'' \<notin> set m"
  by (auto simp: month_text_def dot_not_digit split: list.splits)

lemma split_at_dot_unique:
  "CHR ''.'' \<notin> set a \<Longrightarrow> CHR ''.'' \<notin> set b \<Longrightarrow>
   a @ CHR ''.'' # x = b @ CHR ''.'' # y \<Longrightarrow> a = b \<and> x = y"
proof (induction a arbitrary: b)
  case Nil
  then show ?case by (cases b) auto
next
  case (Cons c a)
  then show ?case by (cases b) auto
qed

lemma format_regex_match_unique:
  assumes "(d, m, y, r) \<in> set (format_regex_match s)"
    and "(d', m', y', r') \<in> set (format_regex_match s)"
  shows "(d', m', y', r') = (d, m, y, r)"
proof -
  from assms(1) have 1: "s = d @ CHR ''.'' # m @ CHR ''.'' # y @ r"
    and t: "day_text d" "month_text m" "year_text y"
    by (simp_all add: format_regex_match_iff)
  from assms(2) have 2: "s = d' @ CHR ''.'' # m' @ CHR ''.'' # y' @ r'"
    and t': "day_text d'" "month_text m'" "year_text y'"
    by (simp_all add: format_regex_match_iff)
  from 1 2 have "d @ CHR ''.'' # m @ CHR ''.'' # y @ r = d' @ CHR ''.'' # m' @ CHR ''.'' # y' @ r'"
    by simp
  then have d: "d = d'" and rest: "m @ CHR ''.'' # y @ r = m' @ CHR ''.'' # y' @ r'"
    using split_at_dot_unique [OF day_text_no_dot [OF t(1)] day_text_no_dot [OF t'(1)]]
    by blast+
  from rest have m: "m = m'" and rest': "y @ r = y' @ r'"
    using split_at_dot_unique [OF month_text_no_dot [OF t(2)] month_text_no_dot [OF t'(2)]]
    by blast+
  from t(3) t'(3) have "length y = length y'" by (simp add: year_text_def)
  with rest' have "y = y'" and "r = r'" by simp_all
  with d m show ?thesis by simp
qed

lemma format_regex_match_first:
  assumes "(d, m, y, r) \<in> set (format_regex_match s)"
  shows "\<exists>others. format_regex_match s = (d, m, y, r) # others"
proof (cases "format_regex_match s")
  case Nil
  with assms show ?thesis by simp
next
  case (Cons x xs)
  obtain d' m' y' r' where x: "x = (d', m', y', r')" by (cases x) auto
  with Cons have "(d', m', y', r') \<in> set (format_regex_match s)" by simp
  from format_regex_match_unique [OF assms this] x Cons show ?thesis by simp
qed

lemma py_int_day: "day_text d \<Longrightarrow> py_int d = Inr (day_number d)"
  by (auto simp: day_text_def py_int_def day_number_def dot_not_digit split: list.splits)

lemma py_int_month: "month_text m \<Longrightarrow> py_int m = Inr (number_of m)"
  by (auto simp: month_text_def py_int_def dot_not_digit split: list.splits)

lemma py_int_year: "year_text y \<Longrightarrow> py_int y = Inr (number_of y)"
proof -
  assume y: "year_text y"
  then obtain a u where "y = a # u" "decimal_digit a"
    by (cases y) (auto simp: year_text_def)
  with y show ?thesis
    by (auto simp: year_text_def py_int_def dot_not_digit)
qed

lemma strptime_of_match:
  assumes "(d, m, y, r) \<in> set (format_regex_match s)"
  shows "strptime s =
    (if r \<noteq> [] then Inl (ValueError (''unconverted data remains: '' @ r))
     else date_new (number_of y) (number_of m) (day_number d))"
proof -
  from assms have t: "day_text d" "month_text m" "year_text y"
    by (simp_all add: format_regex_match_iff)
  from format_regex_match_first [OF assms] obtain others
    where "format_regex_match s = (d, m, y, r) # others" ..
  then show ?thesis
    by (simp add: strptime_def py_int_day [OF t(1)] py_int_month [OF t(2)] py_int_year [OF t(3)])
qed

lemma is_leap_spec: "is_leap y = spec_leap_year y"
  by (simp add: is_leap_def spec_leap_year_def mod_eq_0_iff_dvd)

lemma days_in_month_spec:
  assumes "1 \<le> m" and "m \<le> 12"
  shows "days_in_month y m = spec_month_length y m"
  using month_cases [OF assms]
  by (auto simp: days_in_month_simps spec_month_length_def is_leap_spec)

lemma date_new_iff:
  "date_new y m d = Inr dt \<longleftrightarrow>
     spec_real_date y m d \<and> y \<le> 9999 \<and> dt = \<lparr>year = y, month = m, day = d\<rparr>"
proof (cases "1 \<le> m \<and> m \<le> 12")
  case True
  then show ?thesis
    by (auto simp: date_new_def check_date_fields_def spec_real_date_def MINYEAR_def
        MAXYEAR_def days_in_month_spec)
next
  case False
  then show ?thesis
    by (auto simp: date_new_def check_date_fields_def spec_real_date_def)
qed

lemma date_new_error_kind: "date_new y m d = Inl e \<Longrightarrow> \<exists>msg. e = ValueError msg"
  by (auto simp: date_new_def check_date_fields_def split: if_splits)

lemma spec_month_length_le: "spec_month_length y m \<le> 31"
  by (simp add: spec_month_length_def)

lemma year_text_range: "year_text y \<Longrightarrow> 0 \<le> number_of y \<and> number_of y \<le> 9999"
proof -
  assume "year_text y"
  then obtain a b c e where y: "y = [a, b, c, e]"
    and dd: "decimal_digit a" "decimal_digit b" "decimal_digit c" "decimal_digit e"
    by (auto simp: year_text_def length_Suc_conv numeral_eq_Suc)
  from dd digit_value_range [of a] digit_value_range [of b] digit_value_range [of c]
    digit_value_range [of e]
  show ?thesis unfolding y number_of_simps by simp
qed

lemma strptime_iff:
  "strptime s = Inr dt \<longleftrightarrow>
     (\<exists>d m y. s = d @ ''.'' @ m @ ''.'' @ y
        \<and> day_text d \<and> month_text m \<and> year_text y
        \<and> spec_real_date (number_of y) (number_of m) (day_number d)
        \<and> dt = \<lparr>year = number_of y, month = number_of m, day = day_number d\<rparr>)"
  (is "?L \<longleftrightarrow> ?R")
proof
  assume L: ?L
  then obtain x xs where "format_regex_match s = x # xs"
    by (cases "format_regex_match s") (auto simp: strptime_def)
  then obtain d m y r where mem: "(d, m, y, r) \<in> set (format_regex_match s)"
    by (cases x) auto
  from strptime_of_match [OF mem] L have r: "r = []"
    and dn: "date_new (number_of y) (number_of m) (day_number d) = Inr dt"
    by (auto split: if_splits)
  from mem r have "s = d @ ''.'' @ m @ ''.'' @ y" "day_text d" "month_text m" "year_text y"
    by (simp_all add: format_regex_match_iff)
  with dn show ?R
    unfolding date_new_iff by blast
next
  assume ?R
  then obtain d m y where s: "s = d @ ''.'' @ m @ ''.'' @ y"
    and t: "day_text d" "month_text m" "year_text y"
    and real: "spec_real_date (number_of y) (number_of m) (day_number d)"
    and dt: "dt = \<lparr>year = number_of y, month = number_of m, day = day_number d\<rparr>"
    by blast
  from real spec_month_length_le [of "number_of y" "number_of m"]
  have "1 \<le> day_number d" "day_number d \<le> 31" "1 \<le> number_of m" "number_of m \<le> 12"
    by (simp_all add: spec_real_date_def)
  with s t have mem: "(d, m, y, []) \<in> set (format_regex_match s)"
    by (simp add: format_regex_match_iff)
  from year_text_range [OF t(3)] real dt
  have "date_new (number_of y) (number_of m) (day_number d) = Inr dt"
    by (simp add: date_new_iff)
  with strptime_of_match [OF mem] show ?L by simp
qed

lemma strptime_error_kind: "strptime s = Inl e \<Longrightarrow> \<exists>msg. e = ValueError msg"
proof (cases "format_regex_match s")
  case Nil
  assume "strptime s = Inl e"
  with Nil show ?thesis by (auto simp: strptime_def)
next
  case (Cons x xs)
  assume e: "strptime s = Inl e"
  from Cons obtain d m y r where mem: "(d, m, y, r) \<in> set (format_regex_match s)"
    by (cases x) auto
  from strptime_of_match [OF mem] e date_new_error_kind show ?thesis
    by (auto split: if_splits)
qed

lemma Birthday_cases:
  "Birthday s = (case strptime s of
      Inr dt \<Rightarrow> Inr (Field_obj s)
    | Inl e \<Rightarrow> Inl (ValueError ''Birthday must be in DD.MM.YYYY format.''))"
proof (cases "strptime s")
  case (Inl e)
  with strptime_error_kind [OF Inl] show ?thesis
    by (auto simp: Birthday_def validate_birthday_def)
next
  case (Inr dt)
  then show ?thesis by (simp add: Birthday_def validate_birthday_def)
qed

lemma spec_birthday_string_split:
  assumes "spec_birthday_string s"
  shows "\<exists>d m y. s = d @ ''.'' @ m @ ''.'' @ y \<and> day_text d \<and> month_text m \<and> year_text y
           \<and> spec_real_date (number_of y) (number_of m) (day_number d)"
proof -
  from assms obtain d1 d2 m1 m2 y1 y2 y3 y4
    where s: "s = [d1, d2, CHR ''.'', m1, m2, CHR ''.'', y1, y2, y3, y4]"
      and dd: "list_all decimal_digit [d1, d2, m1, m2, y1, y2, y3, y4]"
      and real: "spec_real_date (number_of [y1, y2, y3, y4]) (number_of [m1, m2])
                   (number_of [d1, d2])"
    by (auto simp: spec_birthday_string_def split: list.splits)
  from dd have "d1 \<noteq> CHR '' ''" using dot_not_digit by auto
  then have "day_number [d1, d2] = number_of [d1, d2]" by (simp add: day_number_def)
  with s dd real show ?thesis
    by (intro exI [of _ "[d1, d2]"] exI [of _ "[m1, m2]"] exI [of _ "[y1, y2, y3, y4]"])
       (simp add: day_text_def month_text_def year_text_def)
qed

text \<open>
  C6, as stated: construction succeeds exactly for the strings in the format
  \<^verbatim>\<open>DD.MM.YYYY\<close> that name a real date. It fails at \<^verbatim>\<open>5.3.2024\<close>, which the parser
  accepts although day and month have one digit each.
\<close>

theorem Birthday_single_digits_counterexample:
  "Birthday ''5.3.2024'' = Inr (Field_obj ''5.3.2024'') \<and> \<not> spec_birthday_string ''5.3.2024''"
  by code_simp

text \<open>
  C6, amended: for every string \<open>s\<close> of characters up to U+00FF, construction from
  \<open>s\<close> succeeds if and only if \<open>s\<close> is a day, a dot, a month, a dot and a year, where
  the day is one or two of the digits 0 to 9 or a blank and one such digit, the month one
  or two such digits and the year exactly four such digits, and they name a real
  Gregorian date; on success the stored value is \<open>s\<close> itself, on failure
  \<^verbatim>\<open>ValueError\<close> is raised; every string in the format \<^verbatim>\<open>DD.MM.YYYY\<close> (digits 0 to 9)
  that names a real date is accepted. (Strings with a character above U+00FF, among them
  those with decimal digits of other scripts, are not covered.)
\<close>

theorem Birthday_accepts_iff:
  "((\<exists>p. Birthday s = Inr p) \<longleftrightarrow>
      (\<exists>d m y. s = d @ ''.'' @ m @ ''.'' @ y
         \<and> day_text d \<and> month_text m \<and> year_text y
         \<and> spec_real_date (number_of y) (number_of m) (day_number d)))
   \<and> (\<forall>p. Birthday s = Inr p \<longrightarrow> field_value p = s)
   \<and> ((\<forall>p. Birthday s \<noteq> Inr p) \<longrightarrow>
        Birthday s = Inl (ValueError ''Birthday must be in DD.MM.YYYY format.''))
   \<and> (spec_birthday_string s \<longrightarrow> Birthday s = Inr (Field_obj s))"
proof -
  have parsed: "(\<exists>dt. strptime s = Inr dt) \<longleftrightarrow>
      (\<exists>d m y. s = d @ ''.'' @ m @ ''.'' @ y
         \<and> day_text d \<and> month_text m \<and> year_text y
         \<and> spec_real_date (number_of y) (number_of m) (day_number d))"
    unfolding strptime_iff by blast
  have 1: "(\<exists>p. Birthday s = Inr p) \<longleftrightarrow> (\<exists>dt. strptime s = Inr dt)"
    by (auto simp: Birthday_cases split: sum.splits)
  have 2: "\<forall>p. Birthday s = Inr p \<longrightarrow> field_value p = s"
    by (auto simp: Birthday_cases split: sum.splits)
  have 3: "(\<forall>p. Birthday s \<noteq> Inr p) \<longrightarrow>
        Birthday s = Inl (ValueError ''Birthday must be in DD.MM.YYYY format.'')"
    by (auto simp: Birthday_cases split: sum.splits)
  have 4: "spec_birthday_string s \<longrightarrow> Birthday s = Inr (Field_obj s)"
  proof
    assume "spec_birthday_string s"
    from spec_birthday_string_split [OF this] parsed obtain dt where "strptime s = Inr dt"
      by blast
    then show "Birthday s = Inr (Field_obj s)" by (simp add: Birthday_cases)
  qed
  from 1 parsed 2 3 4 show ?thesis by blast
qed

theorem Birthday_accepts_iff_witness:
  "spec_birthday_string ''15.06.1990''
   \<and> Birthday ''15.06.1990'' = Inr (Field_obj ''15.06.1990'')
   \<and> Birthday '' 5.3.2024'' = Inr (Field_obj '' 5.3.2024'')
   \<and> Birthday ''31.02.2024'' = Inl (ValueError ''Birthday must be in DD.MM.YYYY format.'')"
proof -
  have a: "spec_birthday_string ''15.06.1990''" by code_simp
  from Birthday_accepts_iff [of "''15.06.1990''"] a
  have 1: "Birthday ''15.06.1990'' = Inr (Field_obj ''15.06.1990'')" by blast
  have "'' 5.3.2024'' = '' 5'' @ ''.'' @ ''3'' @ ''.'' @ ''2024''
      \<and> day_text '' 5'' \<and> month_text ''3'' \<and> year_text ''2024''
      \<and> spec_real_date (number_of ''2024'') (number_of ''3'') (day_number '' 5'')"
    by code_simp
  then have "\<exists>d m y. '' 5.3.2024'' = d @ ''.'' @ m @ ''.'' @ y
         \<and> day_text d \<and> month_text m \<and> year_text y
         \<and> spec_real_date (number_of y) (number_of m) (day_number d)"
    by blast
  with Birthday_accepts_iff [of "'' 5.3.2024''"]
  have 2: "Birthday '' 5.3.2024'' = Inr (Field_obj '' 5.3.2024'')"
    by (metis field.collapse)
  have "Birthday ''31.02.2024'' \<noteq> Inr p" for p by code_simp
  with Birthday_accepts_iff [of "''31.02.2024''"]
  have 3: "Birthday ''31.02.2024'' = Inl (ValueError ''Birthday must be in DD.MM.YYYY format.'')"
    by blast
  from a 1 2 3 show ?thesis by blast
qed

section \<open>What the handlers return\<close>

lemma add_phone_cases:
  "add_phone r phone = (Inr (), r\<lparr>phones := phones r @ [Field_obj phone]\<rparr>)
   \<or> add_phone r phone = (Inl (ValueError ''Phone number must contain exactly 10 digits.''), r)"
  by (simp add: add_phone_def Phone_def)

lemma edit_phone_cases:
  "(\<exists>r'. edit_phone r old new = (Inr (), r'))
   \<or> (\<exists>msg. edit_phone r old new = (Inl (ValueError msg), r))"
proof (cases "find_phone r old")
  case None
  then show ?thesis by (simp add: edit_phone_def)
next
  case (Some phone_obj)
  then obtain i where "index_of (phones r) phone_obj = Inr i"
    using index_of_found [of old "phones r" phone_obj] by (auto simp: find_phone_def)
  with Some show ?thesis
    by (simp add: edit_phone_def Phone_def)
qed

lemma add_birthday_cases:
  "add_birthday r b = (Inr (), r\<lparr>birthday := Some (Field_obj b)\<rparr>)
   \<or> add_birthday r b = (Inl (ValueError ''Birthday must be in DD.MM.YYYY format.''), r)"
  by (simp add: add_birthday_def Birthday_cases split: sum.split)

lemma handle_add_returns: "\<exists>s. fst (handle_add args book) = Inr s"
proof (cases "\<exists>nm phone. args = [nm, phone]")
  case True
  then obtain nm phone where args: "args = [nm, phone]" by blast
  show ?thesis
  proof (cases "find_record book nm")
    case None
    from add_phone_cases [of "Record_init nm" phone] show ?thesis
      by (elim disjE) (simp_all add: handle_add_def handle_add_func_def args None)
  next
    case (Some r)
    from add_phone_cases [of r phone] show ?thesis
      by (elim disjE) (simp_all add: handle_add_def handle_add_func_def args Some)
  qed
next
  case False
  then have "handle_add_func args book
      = (Inr ''Error: 'add' command should have two arguments [name] [phone]'', book)"
    by (simp add: handle_add_func_def split: list.split)
  then show ?thesis by (simp add: handle_add_def)
qed

lemma handle_change_returns: "\<exists>s. fst (handle_change args book) = Inr s"
proof (cases "\<exists>nm old new. args = [nm, old, new]")
  case True
  then obtain nm old new where args: "args = [nm, old, new]" by blast
  show ?thesis
  proof (cases "find_record book nm")
    case None
    then show ?thesis
      by (simp add: handle_change_def handle_change_func_def args)
  next
    case (Some r)
    from edit_phone_cases [of r old new] show ?thesis
      by (elim disjE exE) (simp_all add: handle_change_def handle_change_func_def args Some)
  qed
next
  case False
  then have "handle_change_func args book
      = (Inr (''Error: 'change' command should have three arguments ''
                @ ''[name] [old phone] [new phone]''), book)"
    by (simp add: handle_change_func_def split: list.split)
  then show ?thesis by (simp add: handle_change_def)
qed

lemma handle_add_birthday_returns: "\<exists>s. fst (handle_add_birthday args book) = Inr s"
proof (cases "\<exists>nm b. args = [nm, b]")
  case True
  then obtain nm b where args: "args = [nm, b]" by blast
  show ?thesis
  proof (cases "find_record book nm")
    case None
    then show ?thesis
      by (simp add: handle_add_birthday_def handle_add_birthday_func_def args)
  next
    case (Some r)
    from add_birthday_cases [of r b] show ?thesis
      by (elim disjE)
         (simp_all add: handle_add_birthday_def handle_add_birthday_func_def args Some)
  qed
next
  case False
  then have "handle_add_birthday_func args book
      = (Inr (''Error: 'add-birthday' command should have two arguments ''
                @ ''[name] [birthday]''), book)"
    by (simp add: handle_add_birthday_func_def split: list.split)
  then show ?thesis by (simp add: handle_add_birthday_def)
qed

lemma handle_phone_returns: "\<exists>s. handle_phone args book = Inr s"
  by (simp add: handle_phone_def handle_phone_func_def split: list.split option.split)

lemma handle_show_birthday_returns: "\<exists>s. handle_show_birthday args book = Inr s"
  by (simp add: handle_show_birthday_def handle_show_birthday_func_def
      split: list.split option.split)

lemma handle_all_returns: "\<exists>s. handle_all book = Inr s"
  by (simp add: handle_all_def)

lemma date_add_days_error_kind: "date_add_days dt k = Inl e \<Longrightarrow> value_or_overflow e"
  by (auto simp: date_add_days_def Let_def fromordinal_def value_or_overflow_def
      split: if_splits prod.splits dest: date_new_error_kind)

lemma replace_year_error_kind: "replace_year dt y = Inl e \<Longrightarrow> value_or_overflow e"
  by (auto simp: replace_year_def value_or_overflow_def dest: date_new_error_kind)

lemma strptime_error_kind': "strptime s = Inl e \<Longrightarrow> value_or_overflow e"
  by (auto simp: value_or_overflow_def dest: strptime_error_kind)

lemma upcoming_loop_error_kind:
  "upcoming_loop today w rs acc = Inl e \<Longrightarrow> value_or_overflow e"
proof (induction rs arbitrary: acc)
  case Nil
  then show ?case by simp
next
  case (Cons r rs)
  show ?case
  proof (cases "birthday r")
    case None
    with Cons show ?thesis by simp
  next
    case (Some b)
    show ?thesis
    proof (cases "strptime (field_value b)")
      case (Inl e')
      with Cons.prems Some show ?thesis by (simp add: strptime_error_kind')
    next
      case p: (Inr parsed)
      show ?thesis
      proof (cases "replace_year parsed (year today)")
        case (Inl e')
        with Cons.prems Some p show ?thesis by (simp add: replace_year_error_kind)
      next
        case occ: (Inr occ)
        show ?thesis
        proof (cases "date_le today occ \<and> date_le occ w")
          case False
          with Cons.prems Some p occ have "upcoming_loop today w rs acc = Inl e" by auto
          then show ?thesis by (rule Cons.IH)
        next
          case True
          define sh where "sh = (if weekday occ = 5 then date_add_days occ 2
                             else if weekday occ = 6 then date_add_days occ 1
                             else Inr occ)"
          show ?thesis
          proof (cases sh)
            case (Inl e')
            then have "value_or_overflow e'"
              by (auto simp: sh_def split: if_splits dest: date_add_days_error_kind)
            moreover from Cons.prems Some p occ True Inl have "e = e'"
              by (simp add: sh_def [symmetric])
            ultimately show ?thesis by simp
          next
            case (Inr s)
            with Cons.prems Some p occ True
            have "upcoming_loop today w rs (acc @ [(field_value (name r), s)]) = Inl e"
              by (simp add: sh_def [symmetric])
            then show ?thesis by (rule Cons.IH)
          qed
        qed
      qed
    qed
  qed
qed

lemma handle_birthdays_returns:
  "(\<exists>s. handle_birthdays today book = Inr s)
   \<or> (\<exists>m. handle_birthdays today book = Inl (OverflowError m))"
proof (cases "get_upcoming_birthdays today book")
  case (Inr res)
  then show ?thesis by (simp add: handle_birthdays_def)
next
  case (Inl e)
  then have "value_or_overflow e"
    by (auto simp: get_upcoming_birthdays_def split: sum.splits
        dest: date_add_days_error_kind upcoming_loop_error_kind)
  with Inl show ?thesis
    by (cases e) (simp_all add: handle_birthdays_def value_or_overflow_def)
qed

text \<open>
  C5, at a failing input: \<^verbatim>\<open>handle_change\<close> catches the \<^verbatim>\<open>ValueError\<close> of
  \<^verbatim>\<open>edit_phone\<close> itself and returns its message as it is, without the prefix
  \<^verbatim>\<open>Error: \<close> that the decorator gives the same error in \<^verbatim>\<open>handle_add\<close>.
\<close>

theorem handle_change_error_without_prefix:
  "fst (handle_change [''Bob'', ''1111111111'', ''123'']
          [(''Bob'', \<lparr>name = Field_obj ''Bob'', phones = [Field_obj ''1111111111''],
                      birthday = None\<rparr>)])
     = Inr ''Phone number must contain exactly 10 digits.''
   \<and> take 7 ''Phone number must contain exactly 10 digits.'' \<noteq> ''Error: ''
   \<and> fst (handle_add [''Bob'', ''123'']
          [(''Bob'', \<lparr>name = Field_obj ''Bob'', phones = [Field_obj ''1111111111''],
                      birthday = None\<rparr>)])
     = Inr ''Error: Phone number must contain exactly 10 digits.''"
  by (simp add: handle_change_def handle_change_func_def find_record_def edit_phone_def
      find_phone_def Phone_def validate_phone_def handle_add_def handle_add_func_def
      add_phone_def)

end
